theory Spec2Isabelle
  imports Main
begin

section \<open>Data model of kchess.py\<close>

text \<open>
  The program is one module, \<^verbatim>\<open>kchess.py\<close>: a handful of globals, the colour function
  \<^verbatim>\<open>get_sq_color\<close>, the redraw \<^verbatim>\<open>update_ui\<close> and the event loop of \<^verbatim>\<open>main\<close>.
  The chess rules come from the library \<^verbatim>\<open>chess\<close>, which is not part of the repository:
  every function below takes the rules as a parameter \<open>R\<close>.
\<close>

datatype piece_type = PAWN | KNIGHT | BISHOP | ROOK | QUEEN | KING

text \<open>\<^verbatim>\<open>chess.WHITE\<close> is \<^verbatim>\<open>True\<close> and \<^verbatim>\<open>chess.BLACK\<close> is \<^verbatim>\<open>False\<close>.\<close>

abbreviation (input) WHITE :: bool where "WHITE \<equiv> True"
abbreviation (input) BLACK :: bool where "BLACK \<equiv> False"

datatype piece = Piece (ptype: piece_type) (pcolor: bool)

text \<open>\<^verbatim>\<open>chess.Move\<close>: origin, destination, optional promotion (drops are not used).\<close>

datatype move = Move (from_square: nat) (to_square: nat) (promotion: "piece_type option")

text \<open>\<^verbatim>\<open>chess.Move.null()\<close> is \<^verbatim>\<open>Move(0, 0)\<close>.\<close>

definition null_move :: move where
  "null_move = Move 0 0 None"

text \<open>\<^verbatim>\<open>Move.__bool__\<close>: \<^verbatim>\<open>bool(from_square or to_square or promotion or drop)\<close>.\<close>

definition move_bool :: "move \<Rightarrow> bool" where
  "move_bool m \<longleftrightarrow> from_square m \<noteq> 0 \<or> to_square m \<noteq> 0 \<or> promotion m \<noteq> None"

text \<open>\<^verbatim>\<open>chess.Outcome\<close>: the winner is a colour, or \<^verbatim>\<open>None\<close> for a draw.\<close>

datatype outcome = Outcome (winner: "bool option")

text \<open>
  The rules collaborator: what the program uses of \<^verbatim>\<open>chess.Board\<close>, over a type \<open>'pos\<close>
  of positions. \<open>legal_moves\<close> is a list because the program iterates over it in the
  generator's order; \<open>m in board.legal_moves\<close> is membership in that list. \<open>set_fen\<close>
  returns \<open>None\<close> where the library raises \<^verbatim>\<open>ValueError\<close>.
\<close>

record 'pos rules =
  starting :: 'pos
  legal_moves :: "'pos \<Rightarrow> move list"
  push :: "'pos \<Rightarrow> move \<Rightarrow> 'pos"
  turn :: "'pos \<Rightarrow> bool"
  piece_at :: "'pos \<Rightarrow> nat \<Rightarrow> piece option"
  outcome :: "'pos \<Rightarrow> outcome option"
  is_capture :: "'pos \<Rightarrow> move \<Rightarrow> bool"
  is_en_passant :: "'pos \<Rightarrow> move \<Rightarrow> bool"
  is_castling :: "'pos \<Rightarrow> move \<Rightarrow> bool"
  set_fen :: "string \<Rightarrow> 'pos option"

text \<open>The library defines \<^verbatim>\<open>is_game_over()\<close> as \<^verbatim>\<open>outcome() is not None\<close>.\<close>

definition is_game_over :: "'pos rules \<Rightarrow> 'pos \<Rightarrow> bool" where
  "is_game_over R b \<longleftrightarrow> outcome R b \<noteq> None"

definition is_legal :: "'pos rules \<Rightarrow> 'pos \<Rightarrow> move \<Rightarrow> bool" where
  "is_legal R b m \<longleftrightarrow> m \<in> set (legal_moves R b)"

text \<open>\<^verbatim>\<open>chess.square(file, rank)\<close>, \<^verbatim>\<open>chess.square_rank\<close>, \<^verbatim>\<open>chess.square_file\<close>.\<close>

definition square :: "nat \<Rightarrow> nat \<Rightarrow> nat" where
  "square file_index rank_index = rank_index * 8 + file_index"

definition square_rank :: "nat \<Rightarrow> nat" where
  "square_rank sq = sq div 8"

definition square_file :: "nat \<Rightarrow> nat" where
  "square_file sq = sq mod 8"

text \<open>The keys of the dictionary \<^verbatim>\<open>COLORS\<close> and its values.\<close>

datatype color_key = LIGHT | DARK | SELECTED | VALID_LIGHT | VALID_DARK
  | CAPTURE | SPECIAL | SUGGESTED_P1 | SUGGESTED_P2 | ERROR

fun COLORS :: "color_key \<Rightarrow> string" where
  "COLORS LIGHT = ''#FFFFFF''"
| "COLORS DARK = ''#757575''"
| "COLORS SELECTED = ''#00BCD4''"
| "COLORS VALID_LIGHT = ''#66BB6A''"
| "COLORS VALID_DARK = ''#2E7D32''"
| "COLORS CAPTURE = ''#FFFF00''"
| "COLORS SPECIAL = ''#FF00FF''"
| "COLORS SUGGESTED_P1 = ''#00FFFF''"
| "COLORS SUGGESTED_P2 = ''#AA00FF''"
| "COLORS ERROR = ''#FF0000''"

text \<open>
  The events that \<^verbatim>\<open>window.read\<close> returns: \<^verbatim>\<open>sg.WIN_CLOSED\<close> (which is \<^verbatim>\<open>None\<close>), the
  timeout event, the keys of the six buttons, and a pair \<^verbatim>\<open>(r, f)\<close> for a board cell.
\<close>

datatype event = WIN_CLOSED | TIMEOUT_EVENT | RESTART | EXIT | TOGGLE_BOT
  | ASISTENTE | SET_BOARD | SKIP | Cell nat nat

text \<open>The two queues that an engine thread can be given.\<close>

datatype channel = MoveQueue | SuggestionQueue

text \<open>What the program shows in popups, as a log.\<close>

datatype notice = GameOver string | TurnoIncorrecto | MovimientoInvalido | FenInvalido

text \<open>
  The attributes of the window that the model keeps: the background of each board cell
  (by square index), whether the button \<^verbatim>\<open>-SKIP-\<close> is disabled, and the label of player 2.
\<close>

record window =
  cell_bg :: "nat \<Rightarrow> string"
  skip_disabled :: bool
  p2_label :: string

text \<open>
  The globals of the module, with the window, the log of popups and the log of engine
  threads started (each with the copy of the board it was given and its queue).
\<close>

record 'pos state =
  board :: 'pos
  move_queue :: "move list"
  suggestion_queue :: "move list"
  selected_square :: "nat option"
  valid_moves_squares :: "nat \<rightharpoonup> move"
  engine_suggestion :: "move option"
  is_bot_enabled :: bool
  is_assistant_enabled :: bool
  confirm_states :: "event set"
  game_over_notified :: bool
  win :: window
  notices :: "notice list"
  threads :: "('pos \<times> channel) list"

section \<open>The functions of the module\<close>

definition reset_selection :: "'pos state \<Rightarrow> 'pos state" where
  "reset_selection s = s\<lparr>selected_square := None, valid_moves_squares := Map.empty\<rparr>"

text \<open>
  \<^verbatim>\<open>if is_assistant_enabled and engine_suggestion and engine_suggestion in board.legal_moves\<close>
  with the test on the square and on the bot's turn nested inside.
\<close>

definition suggestion_shown :: "'pos rules \<Rightarrow> 'pos state \<Rightarrow> nat \<Rightarrow> bool" where
  "suggestion_shown R s sq_idx \<longleftrightarrow>
     is_assistant_enabled s \<and>
     (case engine_suggestion s of
        None \<Rightarrow> False
      | Some sg \<Rightarrow>
          move_bool sg \<and> is_legal R (board s) sg \<and>
          (sq_idx = from_square sg \<or> sq_idx = to_square sg) \<and>
          \<not> (is_bot_enabled s \<and> turn R (board s) = BLACK))"

definition get_sq_color :: "'pos rules \<Rightarrow> 'pos state \<Rightarrow> nat \<Rightarrow> string" where
  "get_sq_color R s sq_idx =
     (let is_dark = ((square_rank sq_idx + square_file sq_idx) mod 2 = 0);
          base = (if is_dark then COLORS DARK else COLORS LIGHT)
      in
      if Some sq_idx = selected_square s then COLORS SELECTED
      else if (case valid_moves_squares s sq_idx of
                 None \<Rightarrow> False | Some m \<Rightarrow> is_capture R (board s) m)
        then COLORS CAPTURE
      else if (case valid_moves_squares s sq_idx of
                 None \<Rightarrow> False
               | Some m \<Rightarrow> is_en_passant R (board s) m \<or> is_castling R (board s) m)
        then COLORS SPECIAL
      else if suggestion_shown R s sq_idx
        then (if turn R (board s) = WHITE then COLORS SUGGESTED_P1 else COLORS SUGGESTED_P2)
      else if valid_moves_squares s sq_idx \<noteq> None
        then (if is_dark then COLORS VALID_DARK else COLORS VALID_LIGHT)
      else base)"

text \<open>The text of the result popup of \<^verbatim>\<open>update_ui\<close>.\<close>

definition result_text :: "string \<Rightarrow> outcome \<Rightarrow> string" where
  "result_text label oc =
     (if winner oc = Some WHITE then ''GANO JUGADOR 1 (Blancas)''
      else if winner oc = Some BLACK then ''GANO '' @ label @ '' (Negras)''
      else ''EMPATE'')"

text \<open>
  \<^verbatim>\<open>update_ui\<close>: repaint the 64 cells, set the button \<^verbatim>\<open>-SKIP-\<close>, and report the end of
  the game once, under the latch \<^verbatim>\<open>game_over_notified\<close>.
\<close>

definition update_ui :: "'pos rules \<Rightarrow> 'pos state \<Rightarrow> 'pos state" where
  "update_ui R s =
     (let label = (if is_bot_enabled s then ''BOT'' else ''JUGADOR 2'');
          w = \<lparr>cell_bg = (\<lambda>sq. if sq < 64 then get_sq_color R s sq else cell_bg (win s) sq),
               skip_disabled = is_bot_enabled s,
               p2_label = label\<rparr>;
          s1 = s\<lparr>win := w\<rparr>
      in
      case outcome R (board s) of
        None \<Rightarrow> s1
      | Some oc \<Rightarrow>
          if \<not> game_over_notified s
          then s1\<lparr>game_over_notified := True,
                  notices := notices s @ [GameOver (result_text label oc)]\<rparr>
          else s1)"

text \<open>\<^verbatim>\<open>threading.Thread(target=engine_thread_func, args=(board.copy(), q)).start()\<close>.\<close>

definition start_thread :: "channel \<Rightarrow> 'pos state \<Rightarrow> 'pos state" where
  "start_thread q s = s\<lparr>threads := threads s @ [(board s, q)]\<rparr>"

text \<open>
  How a piece of the loop body ends: it falls through to the next statement, it executes
  \<^verbatim>\<open>continue\<close>, it executes \<^verbatim>\<open>break\<close>, or it raises an exception that nothing catches.
\<close>

datatype 's ctl = Fall 's | Continue 's | Break 's | Raised

text \<open>The input of one iteration: the event read, the text that the FEN dialog returns
  if it is opened, and the moves that engine threads have put on the two queues since the
  last iteration.\<close>

record input =
  ev :: event
  fen_reply :: "string option"
  put_moves :: "move list"
  put_suggestions :: "move list"

definition deliver :: "input \<Rightarrow> 'pos state \<Rightarrow> 'pos state" where
  "deliver i s = s\<lparr>move_queue := move_queue s @ put_moves i,
                   suggestion_queue := suggestion_queue s @ put_suggestions i\<rparr>"

text \<open>Lines 459 to 492: the three buttons that ask for confirmation.\<close>

definition confirm_gate :: "'pos rules \<Rightarrow> event \<Rightarrow> 'pos state \<Rightarrow> 'pos state ctl" where
  "confirm_gate R e s =
     (if e \<in> {RESTART, EXIT, TOGGLE_BOT} then
        (if e \<notin> confirm_states s
         then Continue (update_ui R (s\<lparr>confirm_states := {e}\<rparr>))
         else
           let s1 = s\<lparr>confirm_states := {}\<rparr> in
           if e = EXIT then Break s1
           else
             let s2 = (if e = RESTART
                       then s1\<lparr>board := starting R, game_over_notified := False\<rparr> else s1);
                 s3 = (if e = TOGGLE_BOT
                       then s2\<lparr>is_bot_enabled := \<not> is_bot_enabled s2,
                               board := starting R, game_over_notified := False\<rparr> else s2);
                 s4 = update_ui R (reset_selection s3)
             in Continue
                  (if is_assistant_enabled s4 \<and> \<not> is_game_over R (board s4)
                      \<and> \<not> (is_bot_enabled s4 \<and> turn R (board s4) = BLACK)
                   then start_thread SuggestionQueue s4 else s4))
      else Fall s)"

text \<open>Lines 499 to 510: the button \<^verbatim>\<open>-SKIP-\<close> pushes the null move.\<close>

definition skip_turn :: "'pos rules \<Rightarrow> 'pos state \<Rightarrow> 'pos state" where
  "skip_turn R s =
     (let s1 = update_ui R (reset_selection (s\<lparr>board := push R (board s) null_move\<rparr>))
      in if is_bot_enabled s1 \<and> turn R (board s1) = BLACK then start_thread MoveQueue s1
         else if is_assistant_enabled s1 then start_thread SuggestionQueue s1
         else s1)"

text \<open>Lines 513 to 529: the button \<^verbatim>\<open>-SET-BOARD-\<close>; \<open>fen\<close> is what the dialog returned.\<close>

definition load_fen :: "'pos rules \<Rightarrow> string option \<Rightarrow> 'pos state \<Rightarrow> 'pos state" where
  "load_fen R fen s =
     (case fen of
        None \<Rightarrow> s
      | Some t \<Rightarrow>
          if t = [] then s
          else
            (case set_fen R t of
               None \<Rightarrow> s\<lparr>notices := notices s @ [FenInvalido]\<rparr>
             | Some b \<Rightarrow>
                 let s1 = update_ui R
                           ((reset_selection (s\<lparr>board := b\<rparr>))\<lparr>game_over_notified := False\<rparr>)
                 in if is_bot_enabled s1 \<and> turn R (board s1) = BLACK
                       \<and> \<not> is_game_over R (board s1)
                    then start_thread MoveQueue s1 else s1))"

text \<open>Lines 532 to 542: the button \<^verbatim>\<open>-ASISTENTE-\<close>.\<close>

definition toggle_assistant :: "'pos rules \<Rightarrow> 'pos state \<Rightarrow> 'pos state" where
  "toggle_assistant R s =
     (let s1 = s\<lparr>is_assistant_enabled := \<not> is_assistant_enabled s\<rparr>;
          s2 = (if is_assistant_enabled s1 \<and> \<not> is_game_over R (board s1)
                   \<and> \<not> (is_bot_enabled s1 \<and> turn R (board s1) = BLACK)
                then start_thread SuggestionQueue s1
                else s1\<lparr>engine_suggestion := None\<rparr>)
      in update_ui R s2)"

text \<open>
  The dictionary comprehension of line 563: a later move to the same square replaces an
  earlier one, so the list is reversed for \<open>map_of\<close>, which keeps the first.
\<close>

definition moves_from :: "'pos rules \<Rightarrow> 'pos \<Rightarrow> nat \<Rightarrow> nat \<rightharpoonup> move" where
  "moves_from R b sq =
     map_of (rev (map (\<lambda>m. (to_square m, m))
                      (filter (\<lambda>m. from_square m = sq) (legal_moves R b))))"

text \<open>
  Lines 545 to 612: a click on the cell \<^verbatim>\<open>(r, f)\<close> while the game is not over. Reading
  \<^verbatim>\<open>.piece_type\<close> of an empty square raises \<^verbatim>\<open>AttributeError\<close>.
\<close>

definition click :: "'pos rules \<Rightarrow> nat \<Rightarrow> nat \<Rightarrow> 'pos state \<Rightarrow> 'pos state ctl" where
  "click R r f s =
     (if is_bot_enabled s \<and> turn R (board s) = BLACK then Continue s
      else
        let sq = square f r in
        case selected_square s of
          None \<Rightarrow>
            (case piece_at R (board s) sq of
               None \<Rightarrow> Fall (update_ui R s)
             | Some p \<Rightarrow>
                 if pcolor p = turn R (board s)
                 then Fall (update_ui R
                        (s\<lparr>selected_square := Some sq,
                           valid_moves_squares := moves_from R (board s) sq\<rparr>))
                 else Fall (update_ui R (s\<lparr>notices := notices s @ [TurnoIncorrecto]\<rparr>)))
        | Some sel \<Rightarrow>
            if sq = sel then Continue (update_ui R (reset_selection s))
            else
              (case find (\<lambda>m. from_square m = sel \<and> to_square m = sq)
                         (legal_moves R (board s)) of
                 Some mv \<Rightarrow>
                   if move_bool mv then
                     (case piece_at R (board s) sel of
                        None \<Rightarrow> Raised
                      | Some p \<Rightarrow>
                          let mv' = (if ptype p = PAWN \<and> square_rank (to_square mv) \<in> {0, 7}
                                     then Move (from_square mv) (to_square mv) (Some QUEEN)
                                     else mv);
                              s1 = reset_selection (s\<lparr>board := push R (board s) mv'\<rparr>);
                              s2 = (if \<not> is_game_over R (board s1) then
                                      (if is_bot_enabled s1 \<and> turn R (board s1) = BLACK
                                       then start_thread MoveQueue s1
                                       else if is_assistant_enabled s1
                                       then start_thread SuggestionQueue s1
                                       else s1)
                                    else s1)
                          in Fall (update_ui R s2))
                   else
                     Fall (update_ui R (reset_selection
                       (s\<lparr>win := (win s)\<lparr>cell_bg := (cell_bg (win s))(square f r := COLORS ERROR)\<rparr>,
                          notices := notices s @ [MovimientoInvalido]\<rparr>)))
               | None \<Rightarrow>
                   Fall (update_ui R (reset_selection
                     (s\<lparr>win := (win s)\<lparr>cell_bg := (cell_bg (win s))(square f r := COLORS ERROR)\<rparr>,
                        notices := notices s @ [MovimientoInvalido]\<rparr>)))))"

text \<open>Lines 615 to 628: take one move of the bot from its queue and push it.\<close>

definition poll_move_queue :: "'pos rules \<Rightarrow> 'pos state \<Rightarrow> 'pos state" where
  "poll_move_queue R s =
     (case move_queue s of
        [] \<Rightarrow> s
      | bot_move # rest \<Rightarrow>
          let s1 = s\<lparr>move_queue := rest, board := push R (board s) bot_move,
                     engine_suggestion := None\<rparr>;
              s2 = (if is_assistant_enabled s1 \<and> \<not> is_game_over R (board s1)
                    then start_thread SuggestionQueue s1 else s1)
          in update_ui R s2)"

text \<open>Lines 631 to 640: take one suggestion from its queue and keep it if it is legal.\<close>

definition poll_suggestion_queue :: "'pos rules \<Rightarrow> 'pos state \<Rightarrow> 'pos state" where
  "poll_suggestion_queue R s =
     (case suggestion_queue s of
        [] \<Rightarrow> s
      | new_sugg # rest \<Rightarrow>
          let s1 = s\<lparr>suggestion_queue := rest\<rparr>
          in if is_legal R (board s1) new_sugg
             then update_ui R (s1\<lparr>engine_suggestion := Some new_sugg\<rparr>)
             else s1)"

text \<open>
  Lines 495 to 612: what happens to an event that is not one of the three gated buttons,
  up to the point where the queues are read.
\<close>

definition handle_event :: "'pos rules \<Rightarrow> input \<Rightarrow> 'pos state \<Rightarrow> 'pos state ctl" where
  "handle_event R i s =
     (let s1 = (if ev i \<noteq> TIMEOUT_EVENT then s\<lparr>confirm_states := {}\<rparr> else s) in
      case ev i of
        SKIP \<Rightarrow> Continue (skip_turn R s1)
      | SET_BOARD \<Rightarrow> Continue (load_fen R (fen_reply i) s1)
      | ASISTENTE \<Rightarrow> Continue (toggle_assistant R s1)
      | Cell r f \<Rightarrow> (if \<not> is_game_over R (board s1) then click R r f s1 else Fall s1)
      | _ \<Rightarrow> Fall s1)"

text \<open>One iteration of \<^verbatim>\<open>while True\<close> in \<^verbatim>\<open>main\<close>.\<close>

definition loop_body :: "'pos rules \<Rightarrow> input \<Rightarrow> 'pos state \<Rightarrow> 'pos state ctl" where
  "loop_body R i s0 =
     (let s = deliver i s0 in
      if ev i = WIN_CLOSED then Break s
      else
        case confirm_gate R (ev i) s of
          Fall s1 \<Rightarrow>
            (case handle_event R i s1 of
               Fall s2 \<Rightarrow> Continue (poll_suggestion_queue R (poll_move_queue R s2))
             | r \<Rightarrow> r)
        | r \<Rightarrow> r)"

text \<open>The loop over the inputs of successive iterations; it stops at a \<^verbatim>\<open>break\<close> or an
  exception.\<close>

fun run :: "'pos rules \<Rightarrow> input list \<Rightarrow> 'pos state \<Rightarrow> 'pos state ctl" where
  "run R [] s = Continue s"
| "run R (i # is) s =
     (case loop_body R i s of
        Continue s' \<Rightarrow> run R is s'
      | r \<Rightarrow> r)"

text \<open>The values of the globals when the module is loaded, and the state in which \<^verbatim>\<open>main\<close>
  enters its loop, after the first \<^verbatim>\<open>update_ui\<close>.\<close>

definition blank_window :: window where
  "blank_window = \<lparr>cell_bg = (\<lambda>_. []), skip_disabled = False, p2_label = []\<rparr>"

definition globals :: "'pos rules \<Rightarrow> 'pos state" where
  "globals R =
     \<lparr>board = starting R, move_queue = [], suggestion_queue = [],
      selected_square = None, valid_moves_squares = Map.empty, engine_suggestion = None,
      is_bot_enabled = False, is_assistant_enabled = False, confirm_states = {},
      game_over_notified = False, win = blank_window, notices = [], threads = []\<rparr>"

definition main_start :: "'pos rules \<Rightarrow> 'pos state" where
  "main_start R = update_ui R (globals R)"

text \<open>The state in which a piece of the loop body ends, if it ends without an exception.\<close>

fun ctl_state :: "'s ctl \<Rightarrow> 's option" where
  "ctl_state (Fall s) = Some s"
| "ctl_state (Continue s) = Some s"
| "ctl_state (Break s) = Some s"
| "ctl_state Raised = None"

section \<open>A rules collaborator to compute with\<close>

text \<open>
  The theorems below hold for every rules collaborator. To run the program on concrete
  inputs, here is a small one on the chess board, in which only pawns and knights move
  (pawn pushes, double pushes from the home rank, diagonal captures, promotions; knight
  jumps). A position is the 64 squares (a1 first) and the side to move. As
  in the library, \<open>push\<close> moves whatever stands on the origin square and gives the turn to
  the other side, whether the move is legal or not, and the null move only passes the
  turn. The side that has no move has lost. On the initial array, and after one pawn
  move from it, the legal moves are the twenty moves of chess.
\<close>

datatype mini_pos = MiniPos (placement: "piece option list") (white_to_move: bool)

definition mini_piece_at :: "mini_pos \<Rightarrow> nat \<Rightarrow> piece option" where
  "mini_piece_at b sq = (if sq < length (placement b) then placement b ! sq else None)"

definition mini_enemy :: "mini_pos \<Rightarrow> nat \<Rightarrow> bool" where
  "mini_enemy b sq =
     (case mini_piece_at b sq of None \<Rightarrow> False | Some p \<Rightarrow> pcolor p \<noteq> white_to_move b)"

definition mini_own :: "mini_pos \<Rightarrow> nat \<Rightarrow> bool" where
  "mini_own b sq =
     (case mini_piece_at b sq of None \<Rightarrow> False | Some p \<Rightarrow> pcolor p = white_to_move b)"

definition promotions :: "nat \<Rightarrow> nat \<Rightarrow> move list" where
  "promotions a t =
     (if square_rank t \<in> {0, 7}
      then map (\<lambda>k. Move a t (Some k)) [QUEEN, ROOK, BISHOP, KNIGHT]
      else [Move a t None])"

definition pawn_moves :: "mini_pos \<Rightarrow> nat \<Rightarrow> move list" where
  "pawn_moves b sq =
     (let c = white_to_move b; r = square_rank sq; f = square_file sq in
      if (c \<and> r \<ge> 7) \<or> (\<not> c \<and> r = 0) then []
      else
        let r1 = (if c then r + 1 else r - 1);
            r2 = (if c then r + 2 else r - 2);
            caps = filter (mini_enemy b)
                     ((if f > 0 then [square (f - 1) r1] else []) @
                      (if f < 7 then [square (f + 1) r1] else []));
            one = (if mini_piece_at b (square f r1) = None then [square f r1] else []);
            two = (if r = (if c then 1 else 6) \<and> mini_piece_at b (square f r1) = None
                      \<and> mini_piece_at b (square f r2) = None
                   then [square f r2] else [])
        in concat (map (promotions sq) (caps @ one @ two)))"

definition knight_moves :: "mini_pos \<Rightarrow> nat \<Rightarrow> move list" where
  "knight_moves b sq =
     (let r = int (square_rank sq); f = int (square_file sq);
          jumps = [(1, 2), (2, 1), (2, -1), (1, -2), (-1, -2), (-2, -1), (-2, 1), (-1, 2)];
          onb = filter (\<lambda>(dr, df). 0 \<le> r + dr \<and> r + dr < 8 \<and> 0 \<le> f + df \<and> f + df < 8) jumps;
          tgt = map (\<lambda>(dr, df). square (nat (f + df)) (nat (r + dr))) onb
      in map (\<lambda>t. Move sq t None) (filter (\<lambda>t. \<not> mini_own b t) tgt))"

definition mini_legal_moves :: "mini_pos \<Rightarrow> move list" where
  "mini_legal_moves b =
     concat (map (\<lambda>sq. case mini_piece_at b sq of
                          None \<Rightarrow> []
                        | Some p \<Rightarrow>
                            if pcolor p \<noteq> white_to_move b then []
                            else if ptype p = PAWN then pawn_moves b sq
                            else if ptype p = KNIGHT then knight_moves b sq
                            else [])
                 [0..<64])"

definition mini_push :: "mini_pos \<Rightarrow> move \<Rightarrow> mini_pos" where
  "mini_push b m =
     (if \<not> move_bool m then MiniPos (placement b) (\<not> white_to_move b)
      else
        case mini_piece_at b (from_square m) of
          None \<Rightarrow> MiniPos (placement b) (\<not> white_to_move b)
        | Some p \<Rightarrow>
            let q = (case promotion m of None \<Rightarrow> p | Some k \<Rightarrow> Piece k (pcolor p))
            in MiniPos ((placement b)[from_square m := None, to_square m := Some q])
                       (\<not> white_to_move b))"

definition mini_outcome :: "mini_pos \<Rightarrow> outcome option" where
  "mini_outcome b =
     (if mini_legal_moves b = [] then Some (Outcome (Some (\<not> white_to_move b))) else None)"

definition back_rank :: "bool \<Rightarrow> piece option list" where
  "back_rank c =
     map (\<lambda>k. Some (Piece k c)) [ROOK, KNIGHT, BISHOP, QUEEN, KING, BISHOP, KNIGHT, ROOK]"

definition mini_start :: mini_pos where
  "mini_start =
     MiniPos (back_rank WHITE @ replicate 8 (Some (Piece PAWN WHITE)) @ replicate 32 None
              @ replicate 8 (Some (Piece PAWN BLACK)) @ back_rank BLACK) WHITE"

text \<open>The first two fields of a FEN text: the ranks from the eighth down, and the side.\<close>

definition fen_piece :: "char \<Rightarrow> piece option" where
  "fen_piece c =
     map_of [(CHR ''P'', Piece PAWN WHITE), (CHR ''N'', Piece KNIGHT WHITE),
             (CHR ''B'', Piece BISHOP WHITE), (CHR ''R'', Piece ROOK WHITE),
             (CHR ''Q'', Piece QUEEN WHITE), (CHR ''K'', Piece KING WHITE),
             (CHR ''p'', Piece PAWN BLACK), (CHR ''n'', Piece KNIGHT BLACK),
             (CHR ''b'', Piece BISHOP BLACK), (CHR ''r'', Piece ROOK BLACK),
             (CHR ''q'', Piece QUEEN BLACK), (CHR ''k'', Piece KING BLACK)] c"

definition fen_digit :: "char \<Rightarrow> nat option" where
  "fen_digit c =
     map_of [(CHR ''1'', 1), (CHR ''2'', 2), (CHR ''3'', 3), (CHR ''4'', 4),
             (CHR ''5'', 5), (CHR ''6'', 6), (CHR ''7'', 7), (CHR ''8'', 8::nat)] c"

fun fen_row :: "string \<Rightarrow> piece option list option" where
  "fen_row [] = Some []"
| "fen_row (c # cs) =
     (case fen_row cs of
        None \<Rightarrow> None
      | Some rest \<Rightarrow>
          (case fen_digit c of
             Some n \<Rightarrow> Some (replicate n None @ rest)
           | None \<Rightarrow>
               (case fen_piece c of
                  Some p \<Rightarrow> Some (Some p # rest)
                | None \<Rightarrow> None)))"

fun split_on :: "char \<Rightarrow> string \<Rightarrow> string list" where
  "split_on d [] = [[]]"
| "split_on d (c # cs) =
     (case split_on d cs of
        [] \<Rightarrow> [[c]]
      | w # ws \<Rightarrow> if c = d then [] # w # ws else (c # w) # ws)"

definition mini_set_fen :: "string \<Rightarrow> mini_pos option" where
  "mini_set_fen t =
     (let ws = filter (\<lambda>w. w \<noteq> []) (split_on (CHR '' '') t);
          side = (case ws of _ # w # _ \<Rightarrow> w | _ \<Rightarrow> ''w'')
      in case ws of
           [] \<Rightarrow> None
         | w # _ \<Rightarrow>
             (case those (map fen_row (split_on (CHR ''/'') w)) of
                None \<Rightarrow> None
              | Some rows \<Rightarrow>
                  if length rows = 8 \<and> list_all (\<lambda>x. length x = 8) rows
                     \<and> (side = ''w'' \<or> side = ''b'')
                  then Some (MiniPos (concat (rev rows)) (side = ''w''))
                  else None))"

definition mini :: "mini_pos rules" where
  "mini =
     \<lparr>starting = mini_start, legal_moves = mini_legal_moves, push = mini_push,
      turn = white_to_move, piece_at = mini_piece_at, outcome = mini_outcome,
      is_capture = (\<lambda>b m. mini_enemy b (to_square m)),
      is_en_passant = (\<lambda>b m. False), is_castling = (\<lambda>b m. False),
      set_fen = mini_set_fen\<rparr>"

text \<open>An iteration in which the window reports the event \<open>e\<close> and nothing else arrives.\<close>

definition on :: "event \<Rightarrow> input" where
  "on e = \<lparr>ev = e, fen_reply = None, put_moves = [], put_suggestions = []\<rparr>"

section \<open>The button to pass the turn\<close>

text \<open>The button \<^verbatim>\<open>-SKIP-\<close> shows what \<^verbatim>\<open>update_ui\<close> last gave it: disabled exactly in bot mode.\<close>

definition skip_ok :: "'pos state \<Rightarrow> bool" where
  "skip_ok s \<longleftrightarrow> skip_disabled (win s) = is_bot_enabled s"

section \<open>Concrete states\<close>

text \<open>The state after one click on the button \<^verbatim>\<open>RESTART\<close> in the state in which the loop
  starts: the button is armed.\<close>

definition armed_restart :: "mini_pos state" where
  "armed_restart = update_ui mini ((main_start mini)\<lparr>confirm_states := {RESTART}\<rparr>)"

text \<open>The states after one and after two clicks on \<^verbatim>\<open>-TOGGLE-BOT-\<close> from the start: armed, then bot
  mode on a fresh board.\<close>

definition bot_armed :: "mini_pos state" where
  "bot_armed = update_ui mini ((main_start mini)\<lparr>confirm_states := {TOGGLE_BOT}\<rparr>)"

definition bot_on :: "mini_pos state" where
  "bot_on = update_ui mini (reset_selection
     (bot_armed\<lparr>confirm_states := {}, is_bot_enabled := True, board := mini_start,
                game_over_notified := False\<rparr>))"

text \<open>A game in progress with a piece selected and the mode toggle armed.\<close>

definition midgame_armed :: "mini_pos state" where
  "midgame_armed =
     (main_start mini)\<lparr>board := mini_push mini_start (Move 12 28 None),
                        selected_square := Some 52,
                        valid_moves_squares :=
                          moves_from mini (mini_push mini_start (Move 12 28 None)) 52,
                        confirm_states := {TOGGLE_BOT}\<rparr>"

text \<open>A position in which the side to move has no move, loaded through the FEN dialog.\<close>

definition blocked_fen :: string where
  "blocked_fen = ''8/8/8/4p3/4P3/8/8/8 w - - 0 1''"

definition blocked_state :: "mini_pos state" where
  "blocked_state = load_fen mini (Some blocked_fen) (main_start mini)"

section \<open>The colour rules as the specification words them\<close>

text \<open>
  The specification gives the colour of a square as six rules in priority order, the first
  rule that matches deciding. The conditions are written here from its words, not from
  the code, and the table is read by a generic first-match; \<^verbatim>\<open>get_sq_color\<close> is compared with
  it below. The suggestion rule of the specification asks that a suggestion exists and is
  legal; it knows nothing of the truth value of a move object.
\<close>

definition capture_destination :: "'pos rules \<Rightarrow> 'pos state \<Rightarrow> nat \<Rightarrow> bool" where
  "capture_destination R s sq \<longleftrightarrow>
     (case valid_moves_squares s sq of
        None \<Rightarrow> False
      | Some m \<Rightarrow> is_capture R (board s) m)"

definition special_destination :: "'pos rules \<Rightarrow> 'pos state \<Rightarrow> nat \<Rightarrow> bool" where
  "special_destination R s sq \<longleftrightarrow>
     (case valid_moves_squares s sq of
        None \<Rightarrow> False
      | Some m \<Rightarrow> is_castling R (board s) m \<or> is_en_passant R (board s) m)"

definition spec_suggestion_endpoint :: "'pos rules \<Rightarrow> 'pos state \<Rightarrow> nat \<Rightarrow> bool" where
  "spec_suggestion_endpoint R s sq \<longleftrightarrow>
     is_assistant_enabled s \<and>
     (case engine_suggestion s of
        None \<Rightarrow> False
      | Some m \<Rightarrow> is_legal R (board s) m \<and> (sq = from_square m \<or> sq = to_square m)) \<and>
     \<not> (is_bot_enabled s \<and> turn R (board s) = BLACK)"

definition dark_square :: "nat \<Rightarrow> bool" where
  "dark_square sq \<longleftrightarrow> (square_rank sq + square_file sq) mod 2 = 0"

definition spec_color_rules :: "'pos rules \<Rightarrow> 'pos state \<Rightarrow> nat \<Rightarrow> (bool \<times> string) list" where
  "spec_color_rules R s sq =
     [(selected_square s = Some sq, COLORS SELECTED),
      (capture_destination R s sq, COLORS CAPTURE),
      (special_destination R s sq, COLORS SPECIAL),
      (spec_suggestion_endpoint R s sq,
         if turn R (board s) = WHITE then COLORS SUGGESTED_P1 else COLORS SUGGESTED_P2),
      (valid_moves_squares s sq \<noteq> None,
         if dark_square sq then COLORS VALID_DARK else COLORS VALID_LIGHT),
      (True, if dark_square sq then COLORS DARK else COLORS LIGHT)]"

fun first_match :: "(bool \<times> 'a) list \<Rightarrow> 'a option" where
  "first_match [] = None"
| "first_match ((c, v) # rs) = (if c then Some v else first_match rs)"

text \<open>After 1. e4 d5 the pawn on e4 is selected, and the assistant suggests taking on d5.\<close>

definition capture_state :: "mini_pos state" where
  "capture_state =
     (let b = mini_push (mini_push mini_start (Move 12 28 None)) (Move 51 35 None)
      in (main_start mini)\<lparr>board := b, selected_square := Some 28,
                            valid_moves_squares := moves_from mini b 28,
                            engine_suggestion := Some (Move 28 35 None),
                            is_assistant_enabled := True\<rparr>)"

section \<open>The latch of the end of the game\<close>

text \<open>The result popups in the log of notices, and how many there are.\<close>

fun is_report :: "notice \<Rightarrow> bool" where
  "is_report (GameOver _) = True"
| "is_report _ = False"

definition reports :: "'pos state \<Rightarrow> nat" where
  "reports s = length (filter is_report (notices s))"

text \<open>
  The iterations that set \<open>game_over_notified\<close> back to \<open>False\<close>: the confirming click of
  \<^verbatim>\<open>RESTART\<close> or \<^verbatim>\<open>-TOGGLE-BOT-\<close>, and a FEN text that the rules accept. A run of the loop has
  no reset when none of its iterations is one of them.
\<close>

definition resets_latch :: "'pos rules \<Rightarrow> input \<Rightarrow> 'pos state \<Rightarrow> bool" where
  "resets_latch R i s \<longleftrightarrow>
     (ev i = RESTART \<or> ev i = TOGGLE_BOT) \<and> ev i \<in> confirm_states s
     \<or> ev i = SET_BOARD \<and>
       (case fen_reply i of None \<Rightarrow> False | Some t \<Rightarrow> t \<noteq> [] \<and> set_fen R t \<noteq> None)"

fun no_reset :: "'pos rules \<Rightarrow> input list \<Rightarrow> 'pos state \<Rightarrow> bool" where
  "no_reset R [] s = True"
| "no_reset R (i # is) s =
     (\<not> resets_latch R i s \<and>
      (case loop_body R i s of Continue s' \<Rightarrow> no_reset R is s' | _ \<Rightarrow> True))"

text \<open>From \<open>s\<close> to \<open>s'\<close> the latch never falls back, and a result popup was shown exactly if
  the latch rose.\<close>

definition once :: "'pos state \<Rightarrow> 'pos state \<Rightarrow> bool" where
  "once s s' \<longleftrightarrow>
     (game_over_notified s \<longrightarrow> game_over_notified s') \<and>
     reports s' = reports s + (if game_over_notified s' \<and> \<not> game_over_notified s then 1 else 0)"

text \<open>The state in which a piece of the loop body ends, or a default after an exception.\<close>

fun state_or :: "'s \<Rightarrow> 's ctl \<Rightarrow> 's" where
  "state_or d (Fall s) = s"
| "state_or d (Continue s) = s"
| "state_or d (Break s) = s"
| "state_or d Raised = d"

fun is_raised :: "'s ctl \<Rightarrow> bool" where
  "is_raised Raised = True"
| "is_raised _ = False"

text \<open>A position one move from the end: White plays e3-e4 and Black has no move left.\<close>

definition mate_fen :: string where
  "mate_fen = ''8/8/8/4p3/8/4P3/8/8 w - - 0 1''"

definition mate_start :: "mini_pos state" where
  "mate_start = load_fen mini (Some mate_fen) (main_start mini)"

definition mate_inputs :: "input list" where
  "mate_inputs = [on (Cell 2 4), on (Cell 3 4), on (Cell 3 4), on TIMEOUT_EVENT]"

definition mate_end :: "mini_pos state" where
  "mate_end = state_or mate_start (run mini mate_inputs mate_start)"

section \<open>Concrete runs\<close>

text \<open>Two moves, and the iterations in which an engine thread has put its answer on a
  queue and the window reports only the timeout.\<close>

definition e2e4 :: move where "e2e4 = Move 12 28 None"

definition e7e5 :: move where "e7e5 = Move 52 36 None"

definition reply_suggestion :: "move \<Rightarrow> input" where
  "reply_suggestion m = (on TIMEOUT_EVENT)\<lparr>put_suggestions := [m]\<rparr>"

definition reply_move :: "move \<Rightarrow> input" where
  "reply_move m = (on TIMEOUT_EVENT)\<lparr>put_moves := [m]\<rparr>"

text \<open>The state after a list of iterations from the start of the loop.\<close>

definition state_after :: "input list \<Rightarrow> mini_pos state" where
  "state_after inputs = state_or (main_start mini) (run mini inputs (main_start mini))"

text \<open>The assistant is switched on and suggests e2-e4; the user then plays e2-e4 (a click on
  e2, a click on e4).\<close>

definition dangling_inputs :: "input list" where
  "dangling_inputs = [on ASISTENTE, reply_suggestion e2e4, on (Cell 1 4), on (Cell 3 4)]"

definition assist_on :: "mini_pos state" where
  "assist_on = state_after [on ASISTENTE]"

definition suggested :: "mini_pos state" where
  "suggested = state_or assist_on (loop_body mini (reply_suggestion e2e4) assist_on)"

text \<open>Bot mode is switched on (two clicks), the user plays e2-e4, which starts an engine
  thread for Black's move, and resets the game (two clicks) before the thread answers.\<close>

definition stale_inputs :: "input list" where
  "stale_inputs = [on TOGGLE_BOT, on TOGGLE_BOT, on (Cell 1 4), on (Cell 3 4),
                   on RESTART, on RESTART]"

text \<open>In bot mode with the assistant on, the user has played the suggested e2-e4 and the
  bot's answer has just been put on its queue.\<close>

definition bot_reply_waiting :: "mini_pos state" where
  "bot_reply_waiting =
     deliver (reply_move e7e5)
       (state_after [on TOGGLE_BOT, on TOGGLE_BOT, on ASISTENTE, reply_suggestion e2e4,
                     on (Cell 1 4), on (Cell 3 4)])"

text \<open>What one iteration may do to the suggestion: keep it, clear it, or replace it by a
  move that is legal in the resulting position.\<close>

definition suggestion_kept_or_legal :: "'pos rules \<Rightarrow> 'pos state \<Rightarrow> 'pos state \<Rightarrow> bool" where
  "suggestion_kept_or_legal R s s' \<longleftrightarrow>
     engine_suggestion s' = engine_suggestion s \<or> engine_suggestion s' = None \<or>
     (case engine_suggestion s' of None \<Rightarrow> False | Some m \<Rightarrow> is_legal R (board s') m)"

section \<open>Auxiliary facts\<close>

text \<open>What the small functions leave alone.\<close>

lemma update_ui_keeps [simp]:
  "board (update_ui R s) = board s"
  "move_queue (update_ui R s) = move_queue s"
  "suggestion_queue (update_ui R s) = suggestion_queue s"
  "selected_square (update_ui R s) = selected_square s"
  "valid_moves_squares (update_ui R s) = valid_moves_squares s"
  "engine_suggestion (update_ui R s) = engine_suggestion s"
  "is_bot_enabled (update_ui R s) = is_bot_enabled s"
  "is_assistant_enabled (update_ui R s) = is_assistant_enabled s"
  "confirm_states (update_ui R s) = confirm_states s"
  "threads (update_ui R s) = threads s"
  by (simp_all add: update_ui_def Let_def split: option.splits)

lemma update_ui_skip [simp]: "skip_disabled (win (update_ui R s)) = is_bot_enabled s"
  by (simp add: update_ui_def Let_def split: option.splits)

lemma start_thread_keeps [simp]:
  "board (start_thread q s) = board s"
  "move_queue (start_thread q s) = move_queue s"
  "suggestion_queue (start_thread q s) = suggestion_queue s"
  "selected_square (start_thread q s) = selected_square s"
  "valid_moves_squares (start_thread q s) = valid_moves_squares s"
  "engine_suggestion (start_thread q s) = engine_suggestion s"
  "is_bot_enabled (start_thread q s) = is_bot_enabled s"
  "is_assistant_enabled (start_thread q s) = is_assistant_enabled s"
  "confirm_states (start_thread q s) = confirm_states s"
  "game_over_notified (start_thread q s) = game_over_notified s"
  "win (start_thread q s) = win s"
  "notices (start_thread q s) = notices s"
  by (simp_all add: start_thread_def)

lemma reset_selection_keeps [simp]:
  "board (reset_selection s) = board s"
  "move_queue (reset_selection s) = move_queue s"
  "suggestion_queue (reset_selection s) = suggestion_queue s"
  "selected_square (reset_selection s) = None"
  "valid_moves_squares (reset_selection s) = Map.empty"
  "engine_suggestion (reset_selection s) = engine_suggestion s"
  "is_bot_enabled (reset_selection s) = is_bot_enabled s"
  "is_assistant_enabled (reset_selection s) = is_assistant_enabled s"
  "confirm_states (reset_selection s) = confirm_states s"
  "game_over_notified (reset_selection s) = game_over_notified s"
  "win (reset_selection s) = win s"
  "notices (reset_selection s) = notices s"
  "threads (reset_selection s) = threads s"
  by (simp_all add: reset_selection_def)

lemma deliver_keeps [simp]:
  "board (deliver i s) = board s"
  "move_queue (deliver i s) = move_queue s @ put_moves i"
  "suggestion_queue (deliver i s) = suggestion_queue s @ put_suggestions i"
  "selected_square (deliver i s) = selected_square s"
  "valid_moves_squares (deliver i s) = valid_moves_squares s"
  "engine_suggestion (deliver i s) = engine_suggestion s"
  "is_bot_enabled (deliver i s) = is_bot_enabled s"
  "is_assistant_enabled (deliver i s) = is_assistant_enabled s"
  "confirm_states (deliver i s) = confirm_states s"
  "game_over_notified (deliver i s) = game_over_notified s"
  "win (deliver i s) = win s"
  "notices (deliver i s) = notices s"
  "threads (deliver i s) = threads s"
  by (simp_all add: deliver_def)

text \<open>The set \<open>confirm_states\<close> along the pieces of the loop body.\<close>

lemma skip_turn_confirm [simp]: "confirm_states (skip_turn R s) = confirm_states s"
  by (simp add: skip_turn_def Let_def)

lemma load_fen_confirm [simp]: "confirm_states (load_fen R t s) = confirm_states s"
  by (simp add: load_fen_def Let_def split: option.splits)

lemma toggle_assistant_confirm [simp]: "confirm_states (toggle_assistant R s) = confirm_states s"
  by (simp add: toggle_assistant_def Let_def)

lemma poll_move_confirm [simp]: "confirm_states (poll_move_queue R s) = confirm_states s"
  by (simp add: poll_move_queue_def Let_def split: list.splits)

lemma poll_sugg_confirm [simp]: "confirm_states (poll_suggestion_queue R s) = confirm_states s"
  by (simp add: poll_suggestion_queue_def Let_def split: list.splits)

lemma click_confirm:
  "ctl_state (click R r f s) = Some s' \<Longrightarrow> confirm_states s' = confirm_states s"
  by (auto simp: click_def Let_def split: if_splits option.splits)

lemma confirm_gate_card:
  "ctl_state (confirm_gate R e s) = Some s' \<Longrightarrow> card (confirm_states s) \<le> 1
     \<Longrightarrow> card (confirm_states s') \<le> 1"
  by (auto simp: confirm_gate_def Let_def split: if_splits)

lemma confirm_gate_Fall:
  "confirm_gate R e s = Fall s' \<Longrightarrow> s' = s"
  by (auto simp: confirm_gate_def Let_def split: if_splits)

lemma handle_event_card:
  "ctl_state (handle_event R i s) = Some s' \<Longrightarrow> card (confirm_states s) \<le> 1
     \<Longrightarrow> card (confirm_states s') \<le> 1"
  by (cases "ev i") (auto simp: handle_event_def Let_def dest!: click_confirm split: if_splits)

lemma loop_body_card:
  assumes "ctl_state (loop_body R i s) = Some s'" and "card (confirm_states s) \<le> 1"
  shows "card (confirm_states s') \<le> 1"
proof (cases "ev i = WIN_CLOSED")
  case True
  with assms show ?thesis by (auto simp: loop_body_def)
next
  case False
  show ?thesis
  proof (cases "confirm_gate R (ev i) (deliver i s)")
    case (Fall s1)
    then have s1: "s1 = deliver i s" by (rule confirm_gate_Fall)
    show ?thesis
    proof (cases "handle_event R i s1")
      case (Fall s2)
      with \<open>confirm_gate R (ev i) (deliver i s) = Fall s1\<close> False assms(1)
      have "s' = poll_suggestion_queue R (poll_move_queue R s2)"
        by (simp add: loop_body_def)
      moreover from Fall have "card (confirm_states s2) \<le> 1"
        using handle_event_card [of R i s1 s2] assms(2) s1 by simp
      ultimately show ?thesis by simp
    next
      case (Continue s2)
      with \<open>confirm_gate R (ev i) (deliver i s) = Fall s1\<close> False assms(1)
      have "s' = s2" by (simp add: loop_body_def)
      with Continue show ?thesis
        using handle_event_card [of R i s1 s2] assms(2) s1 by simp
    next
      case (Break s2)
      with \<open>confirm_gate R (ev i) (deliver i s) = Fall s1\<close> False assms(1)
      have "s' = s2" by (simp add: loop_body_def)
      with Break show ?thesis
        using handle_event_card [of R i s1 s2] assms(2) s1 by simp
    next
      case Raised
      with \<open>confirm_gate R (ev i) (deliver i s) = Fall s1\<close> False assms(1)
      show ?thesis by (simp add: loop_body_def)
    qed
  next
    case (Continue s1)
    with False assms(1) have "s' = s1" by (simp add: loop_body_def)
    with Continue show ?thesis
      using confirm_gate_card [of R "ev i" "deliver i s" s1] assms(2) by simp
  next
    case (Break s1)
    with False assms(1) have "s' = s1" by (simp add: loop_body_def)
    with Break show ?thesis
      using confirm_gate_card [of R "ev i" "deliver i s" s1] assms(2) by simp
  next
    case Raised
    with False assms(1) show ?thesis by (simp add: loop_body_def)
  qed
qed

lemma run_card:
  "ctl_state (run R is s) = Some s' \<Longrightarrow> card (confirm_states s) \<le> 1
     \<Longrightarrow> card (confirm_states s') \<le> 1"
proof (induction "is" arbitrary: s)
  case Nil
  then show ?case by simp
next
  case (Cons i "is")
  show ?case
  proof (cases "loop_body R i s")
    case (Continue s1)
    with Cons.prems(2) have "card (confirm_states s1) \<le> 1"
      using loop_body_card [of R i s s1] by simp
    with Cons.IH [of s1] Cons.prems(1) Continue show ?thesis by simp
  next
    case (Fall s1)
    with Cons.prems show ?thesis using loop_body_card [of R i s s'] by simp
  next
    case (Break s1)
    with Cons.prems show ?thesis using loop_body_card [of R i s s'] by simp
  next
    case Raised
    with Cons.prems show ?thesis by simp
  qed
qed

lemma deliver_on [simp]: "deliver (on e) s = s"
  by (simp add: deliver_def on_def)

lemma ev_on [simp]: "ev (on e) = e"
  by (simp add: on_def)

lemma confirm_main_start [simp]: "confirm_states (main_start R) = {}"
  by (simp add: main_start_def globals_def)

text \<open>An invariant of the loop body holds after every run of the loop.\<close>

lemma run_invariant:
  assumes step: "\<And>i s s'. ctl_state (loop_body R i s) = Some s' \<Longrightarrow> P s \<Longrightarrow> P s'"
    and "P s" and "ctl_state (run R inputs s) = Some s'"
  shows "P s'"
  using assms(2,3)
proof (induction inputs arbitrary: s)
  case Nil
  then show ?case by simp
next
  case (Cons i inputs)
  show ?case
  proof (cases "loop_body R i s")
    case (Continue s1)
    with Cons.prems(1) have "P s1" using step [of i s s1] by simp
    with Cons.IH [of s1] Cons.prems(2) Continue show ?thesis by simp
  next
    case (Fall s1)
    with Cons.prems show ?thesis using step [of i s s'] by simp
  next
    case (Break s1)
    with Cons.prems show ?thesis using step [of i s s'] by simp
  next
    case Raised
    with Cons.prems show ?thesis by simp
  qed
qed

text \<open>The button \<^verbatim>\<open>-SKIP-\<close> along the loop body.\<close>

lemma skip_ok_update_ui [simp]: "skip_ok (update_ui R s)"
  by (simp add: skip_ok_def)

lemma skip_ok_start_thread [simp]: "skip_ok (start_thread q s) = skip_ok s"
  by (simp add: skip_ok_def)

lemma skip_ok_deliver [simp]: "skip_ok (deliver i s) = skip_ok s"
  by (simp add: skip_ok_def)

lemma skip_ok_confirm [simp]: "skip_ok (s\<lparr>confirm_states := c\<rparr>) = skip_ok s"
  by (simp add: skip_ok_def)

lemma skip_ok_notices [simp]: "skip_ok (s\<lparr>notices := n\<rparr>) = skip_ok s"
  by (simp add: skip_ok_def)

lemma skip_ok_queue [simp]: "skip_ok (s\<lparr>suggestion_queue := n\<rparr>) = skip_ok s"
  by (simp add: skip_ok_def)

lemma confirm_gate_skip_ok:
  "ctl_state (confirm_gate R e s) = Some s' \<Longrightarrow> skip_ok s \<Longrightarrow> skip_ok s'"
  by (auto simp: confirm_gate_def Let_def split: if_splits)

lemma click_skip_ok:
  "ctl_state (click R r f s) = Some s' \<Longrightarrow> skip_ok s \<Longrightarrow> skip_ok s'"
  by (auto simp: click_def Let_def split: if_splits option.splits)

lemma handle_event_skip_ok:
  "ctl_state (handle_event R i s) = Some s' \<Longrightarrow> skip_ok s \<Longrightarrow> skip_ok s'"
  by (cases "ev i")
     (auto simp: handle_event_def skip_turn_def load_fen_def toggle_assistant_def Let_def
           dest: click_skip_ok split: if_splits option.splits)

lemma poll_skip_ok:
  "skip_ok s \<Longrightarrow> skip_ok (poll_suggestion_queue R (poll_move_queue R s))"
  by (auto simp: poll_suggestion_queue_def poll_move_queue_def Let_def split: list.splits)

lemma loop_body_skip_ok:
  assumes "ctl_state (loop_body R i s) = Some s'" and "skip_ok s"
  shows "skip_ok s'"
proof (cases "ev i = WIN_CLOSED")
  case True
  with assms show ?thesis by (auto simp: loop_body_def)
next
  case False
  show ?thesis
  proof (cases "confirm_gate R (ev i) (deliver i s)")
    case (Fall s1)
    then have s1: "s1 = deliver i s" by (rule confirm_gate_Fall)
    show ?thesis
    proof (cases "handle_event R i s1")
      case (Fall s2)
      with \<open>confirm_gate R (ev i) (deliver i s) = Fall s1\<close> False assms(1)
      have "s' = poll_suggestion_queue R (poll_move_queue R s2)"
        by (simp add: loop_body_def)
      moreover from Fall have "skip_ok s2"
        using handle_event_skip_ok [of R i s1 s2] assms(2) s1 by simp
      ultimately show ?thesis by (simp add: poll_skip_ok)
    next
      case (Continue s2)
      with \<open>confirm_gate R (ev i) (deliver i s) = Fall s1\<close> False assms(1)
      have "s' = s2" by (simp add: loop_body_def)
      with Continue show ?thesis
        using handle_event_skip_ok [of R i s1 s2] assms(2) s1 by simp
    next
      case (Break s2)
      with \<open>confirm_gate R (ev i) (deliver i s) = Fall s1\<close> False assms(1)
      have "s' = s2" by (simp add: loop_body_def)
      with Break show ?thesis
        using handle_event_skip_ok [of R i s1 s2] assms(2) s1 by simp
    next
      case Raised
      with \<open>confirm_gate R (ev i) (deliver i s) = Fall s1\<close> False assms(1)
      show ?thesis by (simp add: loop_body_def)
    qed
  next
    case (Continue s1)
    with False assms(1) have "s' = s1" by (simp add: loop_body_def)
    with Continue show ?thesis
      using confirm_gate_skip_ok [of R "ev i" "deliver i s" s1] assms(2) by simp
  next
    case (Break s1)
    with False assms(1) have "s' = s1" by (simp add: loop_body_def)
    with Break show ?thesis
      using confirm_gate_skip_ok [of R "ev i" "deliver i s" s1] assms(2) by simp
  next
    case Raised
    with False assms(1) show ?thesis by (simp add: loop_body_def)
  qed
qed

lemma skip_ok_main_start [simp]: "skip_ok (main_start R)"
  by (simp add: main_start_def)

lemma mini_fields [simp]:
  "starting mini = mini_start" "turn mini = white_to_move" "outcome mini = mini_outcome"
  "legal_moves mini = mini_legal_moves" "push mini = mini_push" "piece_at mini = mini_piece_at"
  by (simp_all add: mini_def)

lemma mini_start_not_over [simp]: "mini_outcome mini_start = None"
  by code_simp

lemma white_to_move_mini_start [simp]: "white_to_move mini_start"
  by (simp add: mini_start_def)

lemma run_bot_on:
  "run mini [on TOGGLE_BOT, on TOGGLE_BOT] (main_start mini) = Continue bot_on"
  by (simp add: loop_body_def confirm_gate_def bot_armed_def bot_on_def Let_def
        main_start_def globals_def is_game_over_def)

text \<open>The loaded position that is over.\<close>

lemma board_blocked:
  "board blocked_state =
     MiniPos (replicate 28 None @ [Some (Piece PAWN WHITE)] @ replicate 7 None
              @ [Some (Piece PAWN BLACK)] @ replicate 27 None) WHITE"
  unfolding blocked_state_def blocked_fen_def by code_simp

lemma blocked_over: "is_game_over mini (board blocked_state)"
  unfolding board_blocked by code_simp

lemma blocked_queues: "move_queue blocked_state = [] \<and> suggestion_queue blocked_state = []"
  unfolding blocked_state_def blocked_fen_def by code_simp

text \<open>The cases of one iteration, for invariants of the loop body.\<close>

lemma loop_body_preserves:
  assumes run: "ctl_state (loop_body R i s) = Some s'"
    and closed: "ev i = WIN_CLOSED \<Longrightarrow> P (deliver i s)"
    and gate: "\<And>t. ctl_state (confirm_gate R (ev i) (deliver i s)) = Some t \<Longrightarrow>
                 confirm_gate R (ev i) (deliver i s) \<noteq> Fall t \<Longrightarrow> P t"
    and event: "\<And>t. ctl_state (handle_event R i (deliver i s)) = Some t \<Longrightarrow> P t"
    and polls: "\<And>t. P t \<Longrightarrow> P (poll_suggestion_queue R (poll_move_queue R t))"
  shows "P s'"
proof (cases "ev i = WIN_CLOSED")
  case True
  with run closed show ?thesis by (auto simp: loop_body_def)
next
  case False
  show ?thesis
  proof (cases "confirm_gate R (ev i) (deliver i s)")
    case (Fall s1)
    then have s1: "s1 = deliver i s" by (rule confirm_gate_Fall)
    show ?thesis
    proof (cases "handle_event R i s1")
      case (Fall s2)
      with \<open>confirm_gate R (ev i) (deliver i s) = Fall s1\<close> False run
      have "s' = poll_suggestion_queue R (poll_move_queue R s2)"
        by (simp add: loop_body_def)
      moreover from Fall have "P s2" using event [of s2] s1 by simp
      ultimately show ?thesis by (simp add: polls)
    next
      case (Continue s2)
      with \<open>confirm_gate R (ev i) (deliver i s) = Fall s1\<close> False run
      have "s' = s2" by (simp add: loop_body_def)
      with Continue show ?thesis using event [of s2] s1 by simp
    next
      case (Break s2)
      with \<open>confirm_gate R (ev i) (deliver i s) = Fall s1\<close> False run
      have "s' = s2" by (simp add: loop_body_def)
      with Break show ?thesis using event [of s2] s1 by simp
    next
      case Raised
      with \<open>confirm_gate R (ev i) (deliver i s) = Fall s1\<close> False run
      show ?thesis by (simp add: loop_body_def)
    qed
  next
    case (Continue s1)
    with False run have "s' = s1" by (simp add: loop_body_def)
    with Continue show ?thesis using gate [of s1] by simp
  next
    case (Break s1)
    with False run have "s' = s1" by (simp add: loop_body_def)
    with Break show ?thesis using gate [of s1] by simp
  next
    case Raised
    with False run show ?thesis by (simp add: loop_body_def)
  qed
qed

text \<open>The mode flag and the confirmation gate along the loop body.\<close>

lemma skip_turn_bot [simp]: "is_bot_enabled (skip_turn R s) = is_bot_enabled s"
  by (simp add: skip_turn_def Let_def)

lemma load_fen_bot [simp]: "is_bot_enabled (load_fen R t s) = is_bot_enabled s"
  by (simp add: load_fen_def Let_def split: option.splits)

lemma toggle_assistant_bot [simp]: "is_bot_enabled (toggle_assistant R s) = is_bot_enabled s"
  by (simp add: toggle_assistant_def Let_def)

lemma poll_move_bot [simp]: "is_bot_enabled (poll_move_queue R s) = is_bot_enabled s"
  by (simp add: poll_move_queue_def Let_def split: list.splits)

lemma poll_sugg_bot [simp]: "is_bot_enabled (poll_suggestion_queue R s) = is_bot_enabled s"
  by (simp add: poll_suggestion_queue_def Let_def split: list.splits)

lemma click_bot:
  "ctl_state (click R r f s) = Some s' \<Longrightarrow> is_bot_enabled s' = is_bot_enabled s"
  by (auto simp: click_def Let_def split: if_splits option.splits)

lemma handle_event_bot:
  "ctl_state (handle_event R i s) = Some s' \<Longrightarrow> is_bot_enabled s' = is_bot_enabled s"
  by (cases "ev i") (auto simp: handle_event_def Let_def dest!: click_bot split: if_splits)

lemma handle_event_clears:
  "ctl_state (handle_event R i s) = Some s' \<Longrightarrow> ev i \<noteq> TIMEOUT_EVENT
     \<Longrightarrow> confirm_states s' = {}"
  by (cases "ev i") (auto simp: handle_event_def Let_def dest!: click_confirm split: if_splits)

lemma handle_event_no_break: "handle_event R i s \<noteq> Break s'"
  by (cases "ev i") (auto simp: handle_event_def Let_def click_def split: if_splits option.splits)

lemma gate_not_pending:
  assumes "e \<in> {RESTART, EXIT, TOGGLE_BOT}" and "e \<notin> confirm_states s"
  shows "confirm_gate R e s = Continue (update_ui R (s\<lparr>confirm_states := {e}\<rparr>))"
  using assms by (simp add: confirm_gate_def)

lemma gate_other:
  assumes "e \<notin> {RESTART, EXIT, TOGGLE_BOT}"
  shows "confirm_gate R e s = Fall s"
  using assms by (simp add: confirm_gate_def)

lemma loop_body_gated_not_pending:
  assumes "ev i \<in> {RESTART, EXIT, TOGGLE_BOT}" and "ev i \<notin> confirm_states s"
  shows "loop_body R i s = Continue (update_ui R ((deliver i s)\<lparr>confirm_states := {ev i}\<rparr>))"
proof -
  from assms(1) have "ev i \<noteq> WIN_CLOSED" by auto
  moreover from assms(2) have "ev i \<notin> confirm_states (deliver i s)" by simp
  ultimately show ?thesis
    using gate_not_pending [OF assms(1), of "deliver i s" R]
    by (simp add: loop_body_def)
qed

lemma loop_body_other:
  assumes "ev i \<notin> {RESTART, EXIT, TOGGLE_BOT}" and "ev i \<noteq> WIN_CLOSED"
  shows "loop_body R i s =
     (case handle_event R i (deliver i s) of
        Fall s2 \<Rightarrow> Continue (poll_suggestion_queue R (poll_move_queue R s2))
      | r \<Rightarrow> r)"
  using assms(2) gate_other [OF assms(1), of R "deliver i s"]
  by (simp add: loop_body_def)

lemma distraction_same:
  assumes "confirm_states s = {a}" and "ev i \<noteq> a"
    and "ev i \<noteq> TIMEOUT_EVENT" and "ev i \<noteq> WIN_CLOSED"
  shows "loop_body R i s = loop_body R i (s\<lparr>confirm_states := {}\<rparr>)"
proof (cases "ev i \<in> {RESTART, EXIT, TOGGLE_BOT}")
  case True
  have n1: "ev i \<notin> confirm_states s" using assms(1,2) by simp
  have n2: "ev i \<notin> confirm_states (s\<lparr>confirm_states := {}\<rparr>)" by simp
  have dd: "deliver i (s\<lparr>confirm_states := {}\<rparr>) = (deliver i s)\<lparr>confirm_states := {}\<rparr>"
    by (simp add: deliver_def)
  show ?thesis
    unfolding loop_body_gated_not_pending [OF True n1]
      loop_body_gated_not_pending [OF True n2] dd
    by simp
next
  case False
  have dd: "deliver i (s\<lparr>confirm_states := {}\<rparr>) = (deliver i s)\<lparr>confirm_states := {}\<rparr>"
    by (simp add: deliver_def)
  have "handle_event R i (deliver i s) = handle_event R i ((deliver i s)\<lparr>confirm_states := {}\<rparr>)"
    using assms(3) by (simp add: handle_event_def)
  then show ?thesis
    unfolding loop_body_other [OF False assms(4)] dd by simp
qed

lemma distraction_no_break:
  assumes "confirm_states s = {a}" and "ev i \<noteq> a" and "ev i \<noteq> WIN_CLOSED"
  shows "loop_body R i s \<noteq> Break s'"
proof (cases "ev i \<in> {RESTART, EXIT, TOGGLE_BOT}")
  case True
  have n1: "ev i \<notin> confirm_states s" using assms(1,2) by simp
  show ?thesis unfolding loop_body_gated_not_pending [OF True n1] by simp
next
  case False
  show ?thesis
    unfolding loop_body_other [OF False assms(3)]
    using handle_event_no_break [of R i "deliver i s" s']
    by (cases "handle_event R i (deliver i s)") simp_all
qed

lemma distraction_after:
  assumes "confirm_states s = {a}" and "ev i \<noteq> a"
    and "ev i \<noteq> TIMEOUT_EVENT" and "ev i \<noteq> WIN_CLOSED"
    and run: "ctl_state (loop_body R i s) = Some s'"
  shows "a \<notin> confirm_states s' \<and> is_bot_enabled s' = is_bot_enabled s"
proof (cases "ev i \<in> {RESTART, EXIT, TOGGLE_BOT}")
  case True
  have n1: "ev i \<notin> confirm_states s" using assms(1,2) by simp
  from run have "s' = update_ui R ((deliver i s)\<lparr>confirm_states := {ev i}\<rparr>)"
    unfolding loop_body_gated_not_pending [OF True n1] by simp
  with assms(2) show ?thesis by simp
next
  case False
  show ?thesis
  proof (cases "handle_event R i (deliver i s)")
    case (Fall s2)
    with run have s': "s' = poll_suggestion_queue R (poll_move_queue R s2)"
      unfolding loop_body_other [OF False assms(4)] by simp
    from Fall have "ctl_state (handle_event R i (deliver i s)) = Some s2" by simp
    from handle_event_clears [OF this assms(3)] handle_event_bot [OF this] s'
    show ?thesis by simp
  next
    case (Continue s2)
    with run have s': "s' = s2"
      unfolding loop_body_other [OF False assms(4)] by simp
    from Continue have "ctl_state (handle_event R i (deliver i s)) = Some s2" by simp
    from handle_event_clears [OF this assms(3)] handle_event_bot [OF this] s'
    show ?thesis by simp
  next
    case (Break s2)
    with handle_event_no_break [of R i "deliver i s" s2] show ?thesis by simp
  next
    case Raised
    with run show ?thesis
      unfolding loop_body_other [OF False assms(4)] by simp
  qed
qed

lemma gate_pending:
  assumes "e \<in> {RESTART, EXIT, TOGGLE_BOT}" and "e \<in> confirm_states s"
  shows "e = EXIT \<longrightarrow> confirm_gate R e s = Break (s\<lparr>confirm_states := {}\<rparr>)"
    and "e = RESTART \<longrightarrow>
           (\<exists>s'. confirm_gate R e s = Continue s' \<and> board s' = starting R \<and>
                 confirm_states s' = {} \<and> is_bot_enabled s' = is_bot_enabled s)"
    and "e = TOGGLE_BOT \<longrightarrow>
           (\<exists>s'. confirm_gate R e s = Continue s' \<and> board s' = starting R \<and>
                 confirm_states s' = {} \<and> is_bot_enabled s' = (\<not> is_bot_enabled s))"
  using assms(2) by (auto simp: confirm_gate_def Let_def)

lemma loop_body_gate:
  assumes "ev j \<in> {RESTART, EXIT, TOGGLE_BOT}"
  shows "loop_body R j s = confirm_gate R (ev j) (deliver j s)"
proof (cases "confirm_gate R (ev j) (deliver j s)")
  case (Fall t)
  with assms show ?thesis by (auto simp: confirm_gate_def Let_def split: if_splits)
next
  case (Continue t)
  with assms show ?thesis by (auto simp: loop_body_def)
next
  case (Break t)
  with assms show ?thesis by (auto simp: loop_body_def)
next
  case Raised
  with assms show ?thesis by (auto simp: loop_body_def)
qed

text \<open>Only the null move is false as a Python value.\<close>

lemma move_bool_iff: "move_bool m \<longleftrightarrow> m \<noteq> null_move"
  by (cases m) (auto simp: move_bool_def null_move_def)

lemma suggestion_shown_iff:
  assumes "\<not> is_legal R (board s) null_move"
  shows "suggestion_shown R s sq = spec_suggestion_endpoint R s sq"
  using assms
  by (auto simp: suggestion_shown_def spec_suggestion_endpoint_def move_bool_iff
           split: option.splits)

text \<open>The latch and the result popups along the loop body.\<close>

lemma gon_update_ui [simp]:
  "game_over_notified (update_ui R s) = (game_over_notified s \<or> is_game_over R (board s))"
  by (auto simp: update_ui_def Let_def is_game_over_def split: option.splits)

lemma count_update_ui [simp]:
  "length (filter is_report (notices (update_ui R s))) =
     length (filter is_report (notices s))
       + (if is_game_over R (board s) \<and> \<not> game_over_notified s then 1 else 0)"
  by (auto simp: update_ui_def Let_def is_game_over_def split: option.splits)

lemma once_refl [simp]: "once s s"
  by (simp add: once_def)

lemma once_trans: "once a b \<Longrightarrow> once b c \<Longrightarrow> once a c"
  by (cases "game_over_notified a"; cases "game_over_notified b"; cases "game_over_notified c")
     (simp_all add: once_def)

lemma gate_once:
  assumes "ctl_state (confirm_gate R e s) = Some t"
    and "\<not> ((e = RESTART \<or> e = TOGGLE_BOT) \<and> e \<in> confirm_states s)"
  shows "once s t"
proof (cases "e \<in> {RESTART, EXIT, TOGGLE_BOT}")
  case False
  with assms(1) show ?thesis by (simp add: confirm_gate_def)
next
  case True
  show ?thesis
  proof (cases "e \<in> confirm_states s")
    case False
    with True assms(1) have "t = update_ui R (s\<lparr>confirm_states := {e}\<rparr>)"
      by (simp add: confirm_gate_def)
    then show ?thesis by (simp add: once_def reports_def)
  next
    case pending: True
    with True assms(2) have "e = EXIT" by auto
    with pending assms(1) have "t = s\<lparr>confirm_states := {}\<rparr>"
      by (simp add: confirm_gate_def)
    then show ?thesis by (simp add: once_def reports_def)
  qed
qed

lemma skip_turn_once: "once s (skip_turn R s)"
  by (auto simp: skip_turn_def Let_def once_def reports_def)

lemma toggle_assistant_once: "once s (toggle_assistant R s)"
  by (auto simp: toggle_assistant_def Let_def once_def reports_def)

lemma load_fen_once:
  assumes "\<not> (case fen of None \<Rightarrow> False | Some t \<Rightarrow> t \<noteq> [] \<and> set_fen R t \<noteq> None)"
  shows "once s (load_fen R fen s)"
  using assms by (auto simp: load_fen_def once_def reports_def split: option.splits)

lemma once_left:
  assumes "game_over_notified a' = game_over_notified a" and "notices a' = notices a"
    and "once a' t"
  shows "once a t"
  using assms by (simp add: once_def reports_def)

lemma click_once:
  assumes "ctl_state (click R r f s) = Some t"
  shows "once s t"
  using assms
  by (auto simp: click_def Let_def once_def reports_def split: if_splits option.splits)

lemma poll_move_once: "once s (poll_move_queue R s)"
  by (auto simp: poll_move_queue_def Let_def once_def reports_def split: list.splits)

lemma poll_sugg_once: "once s (poll_suggestion_queue R s)"
  by (auto simp: poll_suggestion_queue_def Let_def once_def reports_def split: list.splits)

lemma handle_event_once:
  assumes "ctl_state (handle_event R i s) = Some t"
    and "\<not> (ev i = SET_BOARD \<and>
       (case fen_reply i of None \<Rightarrow> False | Some t \<Rightarrow> t \<noteq> [] \<and> set_fen R t \<noteq> None))"
  shows "once s t"
proof -
  let ?s1 = "if ev i \<noteq> TIMEOUT_EVENT then s\<lparr>confirm_states := {}\<rparr> else s"
  have l: "game_over_notified ?s1 = game_over_notified s" "notices ?s1 = notices s"
    by simp_all
  have "once ?s1 t"
  proof (cases "ev i")
    case SKIP
    with assms(1) have "t = skip_turn R ?s1" by (simp add: handle_event_def)
    then show ?thesis by (simp only: skip_turn_once)
  next
    case SET_BOARD
    with assms(1) have "t = load_fen R (fen_reply i) ?s1" by (simp add: handle_event_def)
    moreover from SET_BOARD assms(2)
    have "\<not> (case fen_reply i of None \<Rightarrow> False | Some t \<Rightarrow> t \<noteq> [] \<and> set_fen R t \<noteq> None)"
      by simp
    ultimately show ?thesis using load_fen_once [where fen = "fen_reply i" and R = R and s = ?s1] by blast
  next
    case ASISTENTE
    with assms(1) have "t = toggle_assistant R ?s1" by (simp add: handle_event_def)
    then show ?thesis by (simp only: toggle_assistant_once)
  next
    case (Cell r f)
    show ?thesis
    proof (cases "is_game_over R (board s)")
      case True
      with Cell assms(1) have "t = ?s1" by (simp add: handle_event_def)
      then show ?thesis by (simp only: once_refl)
    next
      case False
      with Cell assms(1) have "ctl_state (click R r f ?s1) = Some t"
        by (simp add: handle_event_def)
      then show ?thesis by (rule click_once)
    qed
  next
    case WIN_CLOSED
    with assms(1) have "t = ?s1" by (simp add: handle_event_def)
    then show ?thesis by (simp only: once_refl)
  next
    case TIMEOUT_EVENT
    with assms(1) have "t = ?s1" by (simp add: handle_event_def)
    then show ?thesis by (simp only: once_refl)
  next
    case RESTART
    with assms(1) have "t = ?s1" by (simp add: handle_event_def)
    then show ?thesis by (simp only: once_refl)
  next
    case EXIT
    with assms(1) have "t = ?s1" by (simp add: handle_event_def)
    then show ?thesis by (simp only: once_refl)
  next
    case TOGGLE_BOT
    with assms(1) have "t = ?s1" by (simp add: handle_event_def)
    then show ?thesis by (simp only: once_refl)
  qed
  with l show ?thesis by (rule once_left)
qed

lemma ctl_state_state_or: "\<not> is_raised c \<Longrightarrow> ctl_state c = Some (state_or d c)"
  by (cases c) simp_all

lemma once_deliver: "once s (deliver i s)"
  by (simp add: once_def reports_def)

lemma loop_body_once:
  assumes "\<not> resets_latch R i s" and run: "ctl_state (loop_body R i s) = Some s'"
  shows "once s s'"
proof (rule loop_body_preserves [OF run])
  let ?d = "deliver i s"
  show "once s ?d" if "ev i = WIN_CLOSED" by (rule once_deliver)
  show "once s t" if "ctl_state (confirm_gate R (ev i) ?d) = Some t"
    and "confirm_gate R (ev i) ?d \<noteq> Fall t" for t
  proof -
    from assms(1) have "\<not> ((ev i = RESTART \<or> ev i = TOGGLE_BOT) \<and> ev i \<in> confirm_states ?d)"
      by (simp add: resets_latch_def)
    from gate_once [OF that(1) this] have "once ?d t" .
    with once_deliver show ?thesis by (rule once_trans)
  qed
  show "once s t" if "ctl_state (handle_event R i ?d) = Some t" for t
  proof -
    from assms(1) have "\<not> (ev i = SET_BOARD \<and>
       (case fen_reply i of None \<Rightarrow> False | Some t \<Rightarrow> t \<noteq> [] \<and> set_fen R t \<noteq> None))"
      by (simp add: resets_latch_def)
    from handle_event_once [OF that this] have "once ?d t" .
    with once_deliver show ?thesis by (rule once_trans)
  qed
  show "once s (poll_suggestion_queue R (poll_move_queue R t))" if "once s t" for t
    using that poll_move_once [of t R] poll_sugg_once [of "poll_move_queue R t" R]
    by (blast intro: once_trans)
qed

lemma run_once:
  assumes "no_reset R inputs s" and "ctl_state (run R inputs s) = Some s'"
  shows "once s s'"
  using assms
proof (induction inputs arbitrary: s)
  case Nil
  then show ?case by simp
next
  case (Cons i inputs)
  from Cons.prems(1) have nr: "\<not> resets_latch R i s" by simp
  show ?case
  proof (cases "loop_body R i s")
    case (Continue s1)
    with nr have "once s s1" using loop_body_once [of R i s s1] by simp
    moreover from Continue Cons.prems have "once s1 s'"
      using Cons.IH [of s1] by simp
    ultimately show ?thesis by (rule once_trans)
  next
    case (Fall s1)
    with Cons.prems(2) nr show ?thesis using loop_body_once [of R i s s'] by simp
  next
    case (Break s1)
    with Cons.prems(2) nr show ?thesis using loop_body_once [of R i s s'] by simp
  next
    case Raised
    with Cons.prems(2) show ?thesis by simp
  qed
qed

text \<open>The two polls: the bot's move is pushed as it comes, the suggestion is checked; and
  the other paths that change the position clear the selection.\<close>

lemma run_state_after:
  "\<not> is_raised (run mini inputs (main_start mini)) \<Longrightarrow>
   ctl_state (run mini inputs (main_start mini)) = Some (state_after inputs)"
  unfolding state_after_def by (rule ctl_state_state_or)

lemma poll_move_queue_unchecked:
  assumes "move_queue s = m # q"
  shows "board (poll_move_queue R s) = push R (board s) m"
    and "selected_square (poll_move_queue R s) = selected_square s"
    and "valid_moves_squares (poll_move_queue R s) = valid_moves_squares s"
    and "engine_suggestion (poll_move_queue R s) = None"
  using assms by (simp_all add: poll_move_queue_def Let_def)

lemma poll_suggestion_queue_checked:
  assumes "suggestion_queue s = m # q" and "\<not> is_legal R (board s) m"
  shows "poll_suggestion_queue R s = s\<lparr>suggestion_queue := q\<rparr>"
  using assms by (simp add: poll_suggestion_queue_def Let_def)

lemma selection_cleared_elsewhere:
  "selected_square (skip_turn R s) = None \<and> valid_moves_squares (skip_turn R s) = Map.empty"
  "set_fen R t = Some b \<Longrightarrow> t \<noteq> [] \<Longrightarrow>
     board (load_fen R (Some t) s) = b \<and> selected_square (load_fen R (Some t) s) = None \<and>
     valid_moves_squares (load_fen R (Some t) s) = Map.empty"
  "e \<in> {RESTART, TOGGLE_BOT} \<Longrightarrow> e \<in> confirm_states s \<Longrightarrow> confirm_gate R e s = Continue s' \<Longrightarrow>
     board s' = starting R \<and> selected_square s' = None \<and> valid_moves_squares s' = Map.empty"
  "selected_square s \<noteq> None \<Longrightarrow> click R r f s = Fall s' \<Longrightarrow>
     selected_square s' = None \<and> valid_moves_squares s' = Map.empty"
  by (auto simp: skip_turn_def load_fen_def confirm_gate_def click_def Let_def
           split: if_splits option.splits)

lemma skip_turn_sugg [simp]: "engine_suggestion (skip_turn R s) = engine_suggestion s"
  by (simp add: skip_turn_def Let_def)

lemma load_fen_sugg [simp]: "engine_suggestion (load_fen R t s) = engine_suggestion s"
  by (simp add: load_fen_def Let_def split: option.splits)

lemma toggle_assistant_sugg:
  "engine_suggestion (toggle_assistant R s) = engine_suggestion s
   \<or> engine_suggestion (toggle_assistant R s) = None"
  by (simp add: toggle_assistant_def Let_def)

lemma toggle_assistant_off:
  "is_assistant_enabled s \<Longrightarrow> engine_suggestion (toggle_assistant R s) = None \<and>
     \<not> is_assistant_enabled (toggle_assistant R s)"
  by (simp add: toggle_assistant_def Let_def)

lemma click_sugg:
  "ctl_state (click R r f s) = Some s' \<Longrightarrow> engine_suggestion s' = engine_suggestion s"
  by (auto simp: click_def Let_def split: if_splits option.splits)

lemma gate_sugg:
  "ctl_state (confirm_gate R e s) = Some s' \<Longrightarrow> engine_suggestion s' = engine_suggestion s"
  by (auto simp: confirm_gate_def Let_def split: if_splits)

lemma handle_event_sugg:
  assumes "ctl_state (handle_event R i s) = Some s'"
  shows "engine_suggestion s' = engine_suggestion s \<or> engine_suggestion s' = None"
proof (cases "ev i")
  case ASISTENTE
  with assms have "s' = toggle_assistant R
      (if ev i \<noteq> TIMEOUT_EVENT then s\<lparr>confirm_states := {}\<rparr> else s)"
    by (simp add: handle_event_def)
  then show ?thesis
    using toggle_assistant_sugg [of R "s\<lparr>confirm_states := {}\<rparr>"] ASISTENTE by simp
next
  case (Cell r f)
  show ?thesis
  proof (cases "is_game_over R (board s)")
    case True
    with Cell assms show ?thesis by (auto simp: handle_event_def)
  next
    case False
    with Cell assms have "ctl_state (click R r f (s\<lparr>confirm_states := {}\<rparr>)) = Some s'"
      by (simp add: handle_event_def)
    from click_sugg [OF this] show ?thesis by simp
  qed
qed (use assms in \<open>auto simp: handle_event_def\<close>)

lemma polls_sugg:
  assumes "engine_suggestion t = engine_suggestion s \<or> engine_suggestion t = None"
  shows "suggestion_kept_or_legal R s (poll_suggestion_queue R (poll_move_queue R t))"
  using assms
  by (auto simp: suggestion_kept_or_legal_def poll_suggestion_queue_def poll_move_queue_def
        Let_def split: list.splits)

lemma loop_body_sugg:
  assumes run: "ctl_state (loop_body R i s) = Some s'"
  shows "suggestion_kept_or_legal R s s'"
proof (cases "ev i = WIN_CLOSED")
  case True
  with run show ?thesis by (auto simp: loop_body_def suggestion_kept_or_legal_def)
next
  case False
  show ?thesis
  proof (cases "confirm_gate R (ev i) (deliver i s)")
    case (Fall s1)
    then have s1: "s1 = deliver i s" by (rule confirm_gate_Fall)
    show ?thesis
    proof (cases "handle_event R i s1")
      case (Fall s2)
      with \<open>confirm_gate R (ev i) (deliver i s) = Fall s1\<close> False run
      have "s' = poll_suggestion_queue R (poll_move_queue R s2)"
        by (simp add: loop_body_def)
      moreover from Fall
      have "engine_suggestion s2 = engine_suggestion s \<or> engine_suggestion s2 = None"
        using handle_event_sugg [of R i s1 s2] s1 by simp
      ultimately show ?thesis by (simp add: polls_sugg)
    next
      case (Continue s2)
      with \<open>confirm_gate R (ev i) (deliver i s) = Fall s1\<close> False run
      have "s' = s2" by (simp add: loop_body_def)
      with Continue show ?thesis
        using handle_event_sugg [of R i s1 s2] s1 by (auto simp: suggestion_kept_or_legal_def)
    next
      case (Break s2)
      with \<open>confirm_gate R (ev i) (deliver i s) = Fall s1\<close> False run
      have "s' = s2" by (simp add: loop_body_def)
      with Break show ?thesis
        using handle_event_sugg [of R i s1 s2] s1 by (auto simp: suggestion_kept_or_legal_def)
    next
      case Raised
      with \<open>confirm_gate R (ev i) (deliver i s) = Fall s1\<close> False run
      show ?thesis by (simp add: loop_body_def)
    qed
  next
    case (Continue s1)
    with False run have "s' = s1" by (simp add: loop_body_def)
    with Continue show ?thesis
      using gate_sugg [of R "ev i" "deliver i s" s1] by (simp add: suggestion_kept_or_legal_def)
  next
    case (Break s1)
    with False run have "s' = s1" by (simp add: loop_body_def)
    with Break show ?thesis
      using gate_sugg [of R "ev i" "deliver i s" s1] by (simp add: suggestion_kept_or_legal_def)
  next
    case Raised
    with False run show ?thesis by (simp add: loop_body_def)
  qed
qed

lemma suggestion_colour_shown:
  assumes "get_sq_color R s sq \<in> {COLORS SUGGESTED_P1, COLORS SUGGESTED_P2}"
  shows "suggestion_shown R s sq"
  using assms by (auto simp: get_sq_color_def Let_def split: if_splits)

section \<open>The claims\<close>

text \<open>
  Claim C5. At every moment the set \<open>confirm_states\<close> holds at most one action
  identifier: in every state that the loop reaches from its start, whatever the events
  and the engine replies, the set has at most one element; and a click on a gated button
  that is not pending leaves exactly that button in the set, whatever was pending before.
\<close>

theorem confirm_pending_at_most_one:
  assumes "ctl_state (run R inputs (main_start R)) = Some s"
  shows "card (confirm_states s) \<le> 1 \<and>
         (ev i \<in> {RESTART, EXIT, TOGGLE_BOT} \<and> ev i \<notin> confirm_states s \<longrightarrow>
            (\<exists>s'. loop_body R i s = Continue s' \<and> confirm_states s' = {ev i}))"
proof
  show "card (confirm_states s) \<le> 1"
    using assms run_card [of R inputs "main_start R" s] by simp
  show "ev i \<in> {RESTART, EXIT, TOGGLE_BOT} \<and> ev i \<notin> confirm_states s \<longrightarrow>
            (\<exists>s'. loop_body R i s = Continue s' \<and> confirm_states s' = {ev i})"
    by (auto simp: loop_body_def confirm_gate_def)
qed

theorem confirm_pending_at_most_one_witness:
  "ctl_state (run mini [on RESTART] (main_start mini)) = Some armed_restart \<and>
   confirm_states armed_restart = {RESTART} \<and>
   card (confirm_states armed_restart) \<le> 1 \<and>
   (\<exists>s'. loop_body mini (on TOGGLE_BOT) armed_restart = Continue s' \<and>
         confirm_states s' = {TOGGLE_BOT})"
proof -
  have h: "ctl_state (run mini [on RESTART] (main_start mini)) = Some armed_restart"
    by (simp add: loop_body_def confirm_gate_def armed_restart_def)
  have c: "confirm_states armed_restart = {RESTART}"
    by (simp add: armed_restart_def)
  from confirm_pending_at_most_one [OF h, of "on TOGGLE_BOT"] h c show ?thesis
    by simp
qed

text \<open>
  Claim C8, as stated: the button \<^verbatim>\<open>-SKIP-\<close> is disabled exactly while it is the automated
  opponent's turn. It fails: after bot mode is switched on (two clicks on the toggle), the
  board is fresh, it is White's turn, the human's, and the button is disabled.
\<close>

theorem skip_disabled_claim_counterexample:
  "run mini [on TOGGLE_BOT, on TOGGLE_BOT] (main_start mini) = Continue bot_on \<and>
   skip_disabled (win bot_on) \<and>
   \<not> (is_bot_enabled bot_on \<and> turn mini (board bot_on) = BLACK)"
  using run_bot_on by (simp add: bot_on_def)

text \<open>
  Claim C8, amended: the button \<^verbatim>\<open>-SKIP-\<close> is disabled exactly while bot mode is enabled,
  whoever is to move. This holds in every state that the loop reaches from its start.
\<close>

theorem skip_disabled_iff_bot_enabled:
  assumes "ctl_state (run R inputs (main_start R)) = Some s"
  shows "skip_disabled (win s) = is_bot_enabled s"
proof -
  have "skip_ok s"
  proof (rule run_invariant [of R skip_ok "main_start R" inputs s])
    show "skip_ok s2" if "ctl_state (loop_body R i s1) = Some s2" and "skip_ok s1" for i s1 s2
      using that by (rule loop_body_skip_ok)
    show "skip_ok (main_start R)" by simp
    show "ctl_state (run R inputs (main_start R)) = Some s" by (fact assms)
  qed
  then show ?thesis by (simp add: skip_ok_def)
qed

theorem skip_disabled_iff_bot_enabled_witness:
  "ctl_state (run mini [on TOGGLE_BOT, on TOGGLE_BOT] (main_start mini)) = Some bot_on \<and>
   is_bot_enabled bot_on \<and> skip_disabled (win bot_on) = is_bot_enabled bot_on"
proof -
  have h: "ctl_state (run mini [on TOGGLE_BOT, on TOGGLE_BOT] (main_start mini)) = Some bot_on"
    using run_bot_on by simp
  have b: "is_bot_enabled bot_on" by (simp add: bot_on_def)
  from skip_disabled_iff_bot_enabled [OF h] h b show ?thesis by simp
qed

text \<open>
  Claim C9. Whenever the opponent-mode toggle executes (its second, confirming click), the
  position is reset to the initial position, \<open>game_over_notified\<close> is cleared and the
  selection is cleared; the mode flag is flipped. The latch stays cleared because the
  initial position of the rules is not a finished game, which is assumed of the rules.
\<close>

theorem toggle_bot_resets_game:
  assumes "ev i = TOGGLE_BOT" and "TOGGLE_BOT \<in> confirm_states s"
    and "\<not> is_game_over R (starting R)"
  shows "\<exists>s'. loop_body R i s = Continue s' \<and> board s' = starting R \<and>
           \<not> game_over_notified s' \<and> selected_square s' = None \<and>
           valid_moves_squares s' = Map.empty \<and>
           is_bot_enabled s' = (\<not> is_bot_enabled s)"
  using assms
  by (simp add: loop_body_def confirm_gate_def Let_def update_ui_def is_game_over_def)

theorem toggle_bot_resets_game_witness:
  "ev (on TOGGLE_BOT) = TOGGLE_BOT \<and> TOGGLE_BOT \<in> confirm_states midgame_armed \<and>
   \<not> is_game_over mini (starting mini) \<and>
   board midgame_armed \<noteq> starting mini \<and> selected_square midgame_armed = Some 52 \<and>
   (\<exists>s'. loop_body mini (on TOGGLE_BOT) midgame_armed = Continue s' \<and>
         board s' = starting mini \<and> \<not> game_over_notified s' \<and> selected_square s' = None \<and>
         valid_moves_squares s' = Map.empty \<and>
         is_bot_enabled s' = (\<not> is_bot_enabled midgame_armed))"
proof -
  have h1: "ev (on TOGGLE_BOT) = TOGGLE_BOT" by simp
  have h2: "TOGGLE_BOT \<in> confirm_states midgame_armed" by (simp add: midgame_armed_def)
  have h3: "\<not> is_game_over mini (starting mini)" by (simp add: is_game_over_def)
  have b: "board midgame_armed \<noteq> starting mini"
    by (simp add: midgame_armed_def) code_simp
  have c: "selected_square midgame_armed = Some 52" by (simp add: midgame_armed_def)
  from toggle_bot_resets_game [OF h1 h2 h3] h1 h2 h3 b c show ?thesis by blast
qed

text \<open>
  Claim C10. A click on a cell while the position is terminal is ignored: the handling of
  the event changes nothing but the pending confirmation, which every event other than the
  timeout clears (no redraw, so no popup either); the whole iteration is the iteration of a
  timeout tick, and when no engine reply is waiting it leaves selection, position,
  suggestion, mode flags, latch and log of notices as they were.
\<close>

theorem click_ignored_when_game_over:
  assumes "ev i = Cell r f" and "is_game_over R (board s)"
  shows "handle_event R i s = Fall (s\<lparr>confirm_states := {}\<rparr>) \<and>
         loop_body R i s = loop_body R (i\<lparr>ev := TIMEOUT_EVENT\<rparr>) (s\<lparr>confirm_states := {}\<rparr>) \<and>
         (move_queue s = [] \<and> suggestion_queue s = [] \<and> put_moves i = []
            \<and> put_suggestions i = [] \<longrightarrow>
          loop_body R i s = Continue (s\<lparr>confirm_states := {}\<rparr>))"
proof -
  let ?d = "deliver i s"
  let ?j = "i\<lparr>ev := TIMEOUT_EVENT\<rparr>"
  have a: "handle_event R i s = Fall (s\<lparr>confirm_states := {}\<rparr>)"
    using assms by (simp add: handle_event_def)
  have d: "handle_event R i ?d = Fall (?d\<lparr>confirm_states := {}\<rparr>)"
    using assms by (simp add: handle_event_def)
  have g: "confirm_gate R (ev i) ?d = Fall ?d"
    using assms(1) by (simp add: confirm_gate_def)
  have lhs: "loop_body R i s =
      Continue (poll_suggestion_queue R (poll_move_queue R (?d\<lparr>confirm_states := {}\<rparr>)))"
    using assms(1) g d by (simp add: loop_body_def)
  have dj: "deliver ?j (s\<lparr>confirm_states := {}\<rparr>) = ?d\<lparr>confirm_states := {}\<rparr>"
    by (simp add: deliver_def)
  have rhs: "loop_body R ?j (s\<lparr>confirm_states := {}\<rparr>) =
      Continue (poll_suggestion_queue R (poll_move_queue R (?d\<lparr>confirm_states := {}\<rparr>)))"
    by (simp add: loop_body_def dj confirm_gate_def handle_event_def)
  have c: "loop_body R i s = Continue (s\<lparr>confirm_states := {}\<rparr>)"
    if "move_queue s = [] \<and> suggestion_queue s = [] \<and> put_moves i = []
          \<and> put_suggestions i = []"
  proof -
    from that have "?d = s" by (simp add: deliver_def)
    with lhs that show ?thesis
      by (simp add: poll_move_queue_def poll_suggestion_queue_def)
  qed
  from a lhs rhs c show ?thesis by simp
qed

theorem click_ignored_when_game_over_witness:
  "ev (on (Cell 3 4)) = Cell 3 4 \<and> is_game_over mini (board blocked_state) \<and>
   handle_event mini (on (Cell 3 4)) blocked_state = Fall (blocked_state\<lparr>confirm_states := {}\<rparr>) \<and>
   loop_body mini (on (Cell 3 4)) blocked_state = Continue (blocked_state\<lparr>confirm_states := {}\<rparr>)"
proof -
  have h1: "ev (on (Cell 3 4)) = Cell 3 4" by simp
  have q: "put_moves (on (Cell 3 4)) = [] \<and> put_suggestions (on (Cell 3 4)) = []"
    by (simp add: on_def)
  from click_ignored_when_game_over [OF h1 blocked_over] h1 blocked_over blocked_queues q
  show ?thesis by blast
qed

text \<open>
  Claim C6. While a gated action \<open>a\<close> is pending, an event of any other control (a button
  or a cell: not the timeout tick, not the closing of the window) is processed exactly as
  if nothing were pending: the iteration is the one from the state with an empty
  \<open>confirm_states\<close>. It does not leave the loop, it does not flip the mode flag, and \<open>a\<close>
  is no longer pending after it. Only a second event of \<open>a\<close> itself executes it: the exit
  leaves the loop, the restart resets the board, the toggle resets the board and flips the
  mode.
\<close>

theorem cancel_by_distraction:
  assumes "a \<in> {RESTART, EXIT, TOGGLE_BOT}" and "confirm_states s = {a}"
    and "ev i \<noteq> a" and "ev i \<noteq> TIMEOUT_EVENT" and "ev i \<noteq> WIN_CLOSED"
    and "ev j = a"
  shows "loop_body R i s = loop_body R i (s\<lparr>confirm_states := {}\<rparr>) \<and>
         (\<forall>s'. loop_body R i s \<noteq> Break s') \<and>
         (\<forall>s'. ctl_state (loop_body R i s) = Some s' \<longrightarrow>
                a \<notin> confirm_states s' \<and> is_bot_enabled s' = is_bot_enabled s) \<and>
         (a = EXIT \<longrightarrow> loop_body R j s = Break ((deliver j s)\<lparr>confirm_states := {}\<rparr>)) \<and>
         (a = RESTART \<longrightarrow>
            (\<exists>s'. loop_body R j s = Continue s' \<and> board s' = starting R \<and>
                  confirm_states s' = {} \<and> is_bot_enabled s' = is_bot_enabled s)) \<and>
         (a = TOGGLE_BOT \<longrightarrow>
            (\<exists>s'. loop_body R j s = Continue s' \<and> board s' = starting R \<and>
                  confirm_states s' = {} \<and> is_bot_enabled s' = (\<not> is_bot_enabled s)))"
proof -
  have gj: "ev j \<in> {RESTART, EXIT, TOGGLE_BOT}" using assms(1,6) by simp
  have pj: "ev j \<in> confirm_states (deliver j s)" using assms(2,6) by simp
  note second = gate_pending [OF gj pj, of R, folded loop_body_gate [OF gj, of R s]]
  show ?thesis
    using distraction_same [OF assms(2-5), of R]
      distraction_no_break [OF assms(2,3,5), of R]
      distraction_after [OF assms(2-5), of R]
      second assms(6)
    by simp
qed

theorem cancel_by_distraction_witness:
  "RESTART \<in> {RESTART, EXIT, TOGGLE_BOT} \<and> confirm_states armed_restart = {RESTART} \<and>
   ev (on SKIP) \<noteq> RESTART \<and> ev (on SKIP) \<noteq> TIMEOUT_EVENT \<and> ev (on SKIP) \<noteq> WIN_CLOSED \<and>
   ev (on RESTART) = RESTART \<and>
   loop_body mini (on SKIP) armed_restart =
     loop_body mini (on SKIP) (armed_restart\<lparr>confirm_states := {}\<rparr>) \<and>
   (\<exists>s'. loop_body mini (on RESTART) armed_restart = Continue s' \<and>
         board s' = starting mini \<and> confirm_states s' = {} \<and>
         is_bot_enabled s' = is_bot_enabled armed_restart)"
proof -
  have h1: "RESTART \<in> {RESTART, EXIT, TOGGLE_BOT}" by simp
  have h2: "confirm_states armed_restart = {RESTART}" by (simp add: armed_restart_def)
  have h3: "ev (on SKIP) \<noteq> RESTART" by simp
  have h4: "ev (on SKIP) \<noteq> TIMEOUT_EVENT" by simp
  have h5: "ev (on SKIP) \<noteq> WIN_CLOSED" by simp
  have h6: "ev (on RESTART) = RESTART" by simp
  from cancel_by_distraction [OF h1 h2 h3 h4 h5 h6, of mini] h1 h2 h3 h4 h5 h6
  show ?thesis by simp
qed

text \<open>
  Claim C3. For every square and every state, \<^verbatim>\<open>get_sq_color\<close> returns the colour of the first
  rule that matches, in the order: selection origin, capture destination, castling or en
  passant destination, suggestion endpoint (assistant enabled, suggestion legal in the
  current position, not the bot's turn in bot mode), plain destination (shaded by the
  parity of the square), base colour of the square. In particular a capture destination
  that is also a suggestion endpoint never gets a suggestion colour, and gets the capture
  colour unless it is the selection origin. The rules are assumed never to list the null
  move as legal: a null move is false as a Python value, and the code tests the
  suggestion's truth value.
\<close>

theorem get_sq_color_priority:
  assumes "\<not> is_legal R (board s) null_move"
  shows "first_match (spec_color_rules R s sq) = Some (get_sq_color R s sq) \<and>
         (capture_destination R s sq \<and> spec_suggestion_endpoint R s sq \<longrightarrow>
            get_sq_color R s sq \<notin> {COLORS SUGGESTED_P1, COLORS SUGGESTED_P2} \<and>
            (selected_square s \<noteq> Some sq \<longrightarrow> get_sq_color R s sq = COLORS CAPTURE))"
proof -
  have eq: "first_match (spec_color_rules R s sq) = Some (get_sq_color R s sq)"
    unfolding spec_color_rules_def get_sq_color_def Let_def
      suggestion_shown_iff [OF assms, of sq]
    by (auto simp: capture_destination_def special_destination_def dark_square_def
             split: option.splits)
  have cap: "get_sq_color R s sq = COLORS CAPTURE"
    if "capture_destination R s sq" and "selected_square s \<noteq> Some sq"
    using that unfolding get_sq_color_def Let_def capture_destination_def by auto
  have sel: "get_sq_color R s sq = COLORS SELECTED" if "selected_square s = Some sq"
    using that unfolding get_sq_color_def Let_def by auto
  from eq cap sel show ?thesis by (cases "selected_square s = Some sq") auto
qed

theorem get_sq_color_priority_witness:
  "\<not> is_legal mini (board capture_state) null_move \<and>
   capture_destination mini capture_state 35 \<and> spec_suggestion_endpoint mini capture_state 35 \<and>
   get_sq_color mini capture_state 35 = COLORS CAPTURE \<and>
   first_match (spec_color_rules mini capture_state 35) = Some (COLORS CAPTURE)"
proof -
  have h: "\<not> is_legal mini (board capture_state) null_move" by code_simp
  have c: "capture_destination mini capture_state 35" by code_simp
  have e: "spec_suggestion_endpoint mini capture_state 35" by code_simp
  have n: "selected_square capture_state \<noteq> Some 35" by code_simp
  from get_sq_color_priority [OF h, of 35] h c e n show ?thesis by simp
qed

text \<open>
  Claim C7. The latch \<open>game_over_notified\<close> goes from false to true at most once per game:
  along any run of the loop with no reset (no confirmed restart, no confirmed mode toggle,
  no accepted FEN text), from any state, the latch never falls back, and the number of
  result popups grows by one exactly if the latch rose during the run, and not at all
  otherwise. Each redraw shows the popup exactly when the position is terminal and the
  latch is down, and then raises the latch.
\<close>

theorem game_over_reported_once:
  assumes "no_reset R inputs s" and "ctl_state (run R inputs s) = Some s'"
  shows "(game_over_notified s \<longrightarrow> game_over_notified s') \<and>
         reports s' = reports s + (if game_over_notified s' \<and> \<not> game_over_notified s then 1 else 0) \<and>
         (\<forall>t. game_over_notified (update_ui R t) = (game_over_notified t \<or> is_game_over R (board t)) \<and>
              reports (update_ui R t) =
                reports t + (if is_game_over R (board t) \<and> \<not> game_over_notified t then 1 else 0))"
  using run_once [OF assms] by (simp add: once_def reports_def)

theorem game_over_reported_once_witness:
  "no_reset mini mate_inputs mate_start \<and>
   ctl_state (run mini mate_inputs mate_start) = Some mate_end \<and>
   \<not> game_over_notified mate_start \<and> game_over_notified mate_end \<and>
   reports mate_end = reports mate_start + 1"
proof -
  have h1: "no_reset mini mate_inputs mate_start" by code_simp
  have "\<not> is_raised (run mini mate_inputs mate_start)" by code_simp
  then have h2: "ctl_state (run mini mate_inputs mate_start) = Some mate_end"
    unfolding mate_end_def by (rule ctl_state_state_or)
  have g1: "\<not> game_over_notified mate_start" by code_simp
  have g2: "game_over_notified mate_end" by code_simp
  from game_over_reported_once [OF h1 h2] h1 h2 g1 g2 show ?thesis by simp
qed

text \<open>
  Claim C1: a move taken from the play queue is validated against the current position
  and dropped, with the state unchanged, if it is no longer legal. The code does not do
  this: \<open>poll_move_queue\<close> pushes whatever it takes from the queue, while the poll of the
  suggestion queue next to it does check \<open>is_legal\<close>. Here the engine thread was started
  for the position after e2-e4, where e7-e5 is legal; the game is reset before it answers;
  e7-e5 is not legal in the reset position (White is to move), and the next iteration
  pushes it all the same and the position changes.
\<close>

theorem stale_play_result_pushed:
  "ctl_state (run mini stale_inputs (main_start mini)) = Some (state_after stale_inputs) \<and>
   (mini_push mini_start e2e4, MoveQueue) \<in> set (threads (state_after stale_inputs)) \<and>
   is_legal mini (mini_push mini_start e2e4) e7e5 \<and>
   board (state_after stale_inputs) = mini_start \<and>
   \<not> is_legal mini (board (state_after stale_inputs)) e7e5 \<and>
   ctl_state (run mini (stale_inputs @ [reply_move e7e5]) (main_start mini))
     = Some (state_after (stale_inputs @ [reply_move e7e5])) \<and>
   board (state_after (stale_inputs @ [reply_move e7e5])) = mini_push mini_start e7e5 \<and>
   mini_push mini_start e7e5 \<noteq> mini_start"
proof -
  have "\<not> is_raised (run mini stale_inputs (main_start mini))" by code_simp
  then have "ctl_state (run mini stale_inputs (main_start mini)) = Some (state_after stale_inputs)"
    by (rule run_state_after)
  moreover have "(mini_push mini_start e2e4, MoveQueue) \<in> set (threads (state_after stale_inputs))"
    by code_simp
  moreover have "is_legal mini (mini_push mini_start e2e4) e7e5" by code_simp
  moreover have "board (state_after stale_inputs) = mini_start" by code_simp
  moreover have "\<not> is_legal mini (board (state_after stale_inputs)) e7e5" by code_simp
  moreover have "\<not> is_raised (run mini (stale_inputs @ [reply_move e7e5]) (main_start mini))"
    by code_simp
  then have "ctl_state (run mini (stale_inputs @ [reply_move e7e5]) (main_start mini))
     = Some (state_after (stale_inputs @ [reply_move e7e5]))"
    by (rule run_state_after)
  moreover have "board (state_after (stale_inputs @ [reply_move e7e5])) = mini_push mini_start e7e5"
    by code_simp
  moreover have "mini_push mini_start e7e5 \<noteq> mini_start" by code_simp
  ultimately show ?thesis by simp
qed

text \<open>
  Claim C2: after every mutation of the position, from any source, the selection is
  idle. The code clears the selection after a human move, a reset, a mode toggle, a FEN
  load and a pass (\<open>selection_cleared_elsewhere\<close>), but not after a move of the bot
  (\<open>poll_move_queue_unchecked\<close>). Here the user selects e2 after the reset of the run
  above; the late answer of the engine is then pushed, the position changes, and the
  selection with its destinations, computed for the position before, is still there.
\<close>

theorem selection_survives_bot_move:
  "ctl_state (run mini (stale_inputs @ [on (Cell 1 4)]) (main_start mini))
     = Some (state_after (stale_inputs @ [on (Cell 1 4)])) \<and>
   selected_square (state_after (stale_inputs @ [on (Cell 1 4)])) = Some 12 \<and>
   board (state_after (stale_inputs @ [on (Cell 1 4)])) = mini_start \<and>
   ctl_state (run mini (stale_inputs @ [on (Cell 1 4), reply_move e7e5]) (main_start mini))
     = Some (state_after (stale_inputs @ [on (Cell 1 4), reply_move e7e5])) \<and>
   board (state_after (stale_inputs @ [on (Cell 1 4), reply_move e7e5]))
     = mini_push mini_start e7e5 \<and>
   mini_push mini_start e7e5 \<noteq> mini_start \<and>
   selected_square (state_after (stale_inputs @ [on (Cell 1 4), reply_move e7e5])) = Some 12 \<and>
   valid_moves_squares (state_after (stale_inputs @ [on (Cell 1 4), reply_move e7e5])) 28
     = Some e2e4"
proof -
  have "\<not> is_raised (run mini (stale_inputs @ [on (Cell 1 4)]) (main_start mini))"
    by code_simp
  then have "ctl_state (run mini (stale_inputs @ [on (Cell 1 4)]) (main_start mini))
     = Some (state_after (stale_inputs @ [on (Cell 1 4)]))"
    by (rule run_state_after)
  moreover have "selected_square (state_after (stale_inputs @ [on (Cell 1 4)])) = Some 12"
    by code_simp
  moreover have "board (state_after (stale_inputs @ [on (Cell 1 4)])) = mini_start"
    by code_simp
  moreover have "\<not> is_raised (run mini (stale_inputs @ [on (Cell 1 4), reply_move e7e5])
      (main_start mini))"
    by code_simp
  then have "ctl_state (run mini (stale_inputs @ [on (Cell 1 4), reply_move e7e5])
       (main_start mini))
     = Some (state_after (stale_inputs @ [on (Cell 1 4), reply_move e7e5]))"
    by (rule run_state_after)
  moreover have "board (state_after (stale_inputs @ [on (Cell 1 4), reply_move e7e5]))
     = mini_push mini_start e7e5"
    by code_simp
  moreover have "mini_push mini_start e7e5 \<noteq> mini_start" by code_simp
  moreover have "selected_square (state_after (stale_inputs @ [on (Cell 1 4), reply_move e7e5]))
     = Some 12"
    by code_simp
  moreover have "valid_moves_squares
      (state_after (stale_inputs @ [on (Cell 1 4), reply_move e7e5])) 28 = Some e2e4"
    by code_simp
  ultimately show ?thesis by simp
qed

text \<open>
  Claim C4, as stated: whenever a suggestion is present it is a legal move in the current
  position. It fails: the assistant suggests e2-e4, the user plays it, and the suggestion
  is still e2-e4, which is not legal for Black. (\<^verbatim>\<open>reset_selection\<close> leaves the suggestion
  on purpose, as its comment says.)
\<close>

theorem suggestion_left_dangling:
  "ctl_state (run mini dangling_inputs (main_start mini)) = Some (state_after dangling_inputs) \<and>
   threads (state_after [on ASISTENTE]) = [(mini_start, SuggestionQueue)] \<and>
   is_legal mini mini_start e2e4 \<and>
   engine_suggestion (state_after dangling_inputs) = Some e2e4 \<and>
   \<not> is_legal mini (board (state_after dangling_inputs)) e2e4"
proof -
  have "\<not> is_raised (run mini dangling_inputs (main_start mini))" by code_simp
  then have "ctl_state (run mini dangling_inputs (main_start mini))
               = Some (state_after dangling_inputs)"
    by (rule run_state_after)
  moreover have "threads (state_after [on ASISTENTE]) = [(mini_start, SuggestionQueue)]"
    by code_simp
  moreover have "is_legal mini mini_start e2e4" by code_simp
  moreover have "engine_suggestion (state_after dangling_inputs) = Some e2e4" by code_simp
  moreover have "\<not> is_legal mini (board (state_after dangling_inputs)) e2e4" by code_simp
  ultimately show ?thesis by simp
qed

text \<open>
  Claim C4, amended: an iteration of the loop keeps the suggestion, clears it, or replaces
  it by a move that is legal in the resulting position; the suggestion is cleared when the
  assistant is turned off and when a move of the bot is taken from the play queue; and a
  square is drawn in a suggestion colour only if the assistant is enabled and the
  suggestion is legal in the current position. (After a human move, a pass, a reset or a
  FEN load the suggestion may stay though it is no longer legal; it is then not drawn.)
\<close>

theorem suggestion_legal_when_installed_or_drawn:
  "(ctl_state (loop_body R i a) = Some a' \<longrightarrow>
      engine_suggestion a' = engine_suggestion a \<or> engine_suggestion a' = None \<or>
      (\<exists>m. engine_suggestion a' = Some m \<and> is_legal R (board a') m)) \<and>
   (ev j = ASISTENTE \<and> is_assistant_enabled b \<longrightarrow>
      (\<exists>t. loop_body R j b = Continue t \<and> engine_suggestion t = None)) \<and>
   (move_queue c \<noteq> [] \<longrightarrow> engine_suggestion (poll_move_queue R c) = None) \<and>
   (get_sq_color R d sq \<in> {COLORS SUGGESTED_P1, COLORS SUGGESTED_P2} \<longrightarrow>
      is_assistant_enabled d \<and>
      (\<exists>m. engine_suggestion d = Some m \<and> is_legal R (board d) m))"
proof -
  have p1: "engine_suggestion a' = engine_suggestion a \<or> engine_suggestion a' = None \<or>
      (\<exists>m. engine_suggestion a' = Some m \<and> is_legal R (board a') m)"
    if "ctl_state (loop_body R i a) = Some a'"
    using loop_body_sugg [OF that]
    by (auto simp: suggestion_kept_or_legal_def split: option.splits)
  have p2: "\<exists>t. loop_body R j b = Continue t \<and> engine_suggestion t = None"
    if "ev j = ASISTENTE \<and> is_assistant_enabled b"
  proof -
    from that have "loop_body R j b =
        Continue (toggle_assistant R ((deliver j b)\<lparr>confirm_states := {}\<rparr>))"
      by (simp add: loop_body_def confirm_gate_def handle_event_def)
    moreover from that have "is_assistant_enabled ((deliver j b)\<lparr>confirm_states := {}\<rparr>)"
      by simp
    ultimately show ?thesis using toggle_assistant_off by blast
  qed
  have p3: "engine_suggestion (poll_move_queue R c) = None" if "move_queue c \<noteq> []"
    using that by (cases "move_queue c") (simp_all add: poll_move_queue_unchecked(4))
  have p4: "is_assistant_enabled d \<and>
      (\<exists>m. engine_suggestion d = Some m \<and> is_legal R (board d) m)"
    if "get_sq_color R d sq \<in> {COLORS SUGGESTED_P1, COLORS SUGGESTED_P2}"
    using suggestion_colour_shown [OF that]
    by (auto simp: suggestion_shown_def split: option.splits)
  from p1 p2 p3 p4 show ?thesis by blast
qed

theorem suggestion_legal_when_installed_or_drawn_witness:
  "ctl_state (loop_body mini (reply_suggestion e2e4) assist_on) = Some suggested \<and>
   engine_suggestion assist_on = None \<and> engine_suggestion suggested = Some e2e4 \<and>
   is_legal mini (board suggested) e2e4 \<and>
   ev (on ASISTENTE) = ASISTENTE \<and> is_assistant_enabled suggested \<and>
   (\<exists>t. loop_body mini (on ASISTENTE) suggested = Continue t \<and> engine_suggestion t = None) \<and>
   move_queue bot_reply_waiting \<noteq> [] \<and> engine_suggestion bot_reply_waiting = Some e2e4 \<and>
   engine_suggestion (poll_move_queue mini bot_reply_waiting) = None \<and>
   get_sq_color mini suggested 12 \<in> {COLORS SUGGESTED_P1, COLORS SUGGESTED_P2} \<and>
   (\<exists>m. engine_suggestion suggested = Some m \<and> is_legal mini (board suggested) m)"
proof -
  have "\<not> is_raised (loop_body mini (reply_suggestion e2e4) assist_on)" by code_simp
  then have h1: "ctl_state (loop_body mini (reply_suggestion e2e4) assist_on) = Some suggested"
    unfolding suggested_def by (rule ctl_state_state_or)
  have e1: "engine_suggestion assist_on = None" by code_simp
  have e2: "engine_suggestion suggested = Some e2e4" by code_simp
  have h2: "ev (on ASISTENTE) = ASISTENTE \<and> is_assistant_enabled suggested"
    by (simp, code_simp)
  have h3: "move_queue bot_reply_waiting \<noteq> []"
    by (simp add: bot_reply_waiting_def reply_move_def on_def)
  have e3: "engine_suggestion bot_reply_waiting = Some e2e4" by code_simp
  have h4: "get_sq_color mini suggested 12 \<in> {COLORS SUGGESTED_P1, COLORS SUGGESTED_P2}"
    by code_simp
  from suggestion_legal_when_installed_or_drawn
         [of mini "reply_suggestion e2e4" assist_on suggested "on ASISTENTE" suggested
             bot_reply_waiting suggested 12]
       h1 e1 e2 h2 h3 e3 h4
  show ?thesis by auto
qed

end
